theory Spec2Isabelle
  imports Complex_Main
begin

section \<open>Values and strings\<close>

text \<open>
  A Python \<open>str\<close> is a sequence of Unicode code points; the labels of the program are
  Cyrillic, so a string is modelled as the list of its code points. Equality of two
  strings is equality of the lists.
\<close>

type_synonym pystr = "nat list"

definition ascii :: "string \<Rightarrow> pystr" where
  "ascii s = map of_char s"

text \<open>
  What \<open>xlrd\<close> hands out as the value of a cell: a \<open>str\<close> for a text cell (the empty
  string for an empty or blank cell), a \<open>float\<close> for a number or a date, an \<open>int\<close> for a
  boolean or an error code. Only equality with a label and truthiness are used by the
  program, so a float is represented by the real number it denotes.
\<close>

datatype pyval = PStr pystr | PFloat real | PInt int

text \<open>Python truthiness, as \<open>if not price\<close> tests it.\<close>

fun truthy :: "pyval \<Rightarrow> bool" where
  "truthy (PStr s) = (s \<noteq> [])"
| "truthy (PFloat x) = (x \<noteq> 0)"
| "truthy (PInt n) = (n \<noteq> 0)"

section \<open>The sheet, as xlrd presents it\<close>

text \<open>
  A sheet is the list of its rows. \<open>xlrd\<close> (with its default \<open>ragged_rows=False\<close>) pads
  every row with empty cells up to the width of the widest one, so \<open>ncols\<close> is the
  largest row length and a cell beyond the stored end of its row reads as the empty string.
\<close>

type_synonym sheet = "pyval list list"

definition nrows :: "sheet \<Rightarrow> nat" where
  "nrows sh = length sh"

definition ncols :: "sheet \<Rightarrow> nat" where
  "ncols sh = fold max (map length sh) 0"

definition cell_value :: "sheet \<Rightarrow> nat \<Rightarrow> nat \<Rightarrow> pyval" where
  "cell_value sh r c =
     (if r < length sh \<and> c < length (sh ! r) then sh ! r ! c else PStr [])"

definition row_values :: "sheet \<Rightarrow> nat \<Rightarrow> pyval list" where
  "row_values sh r = map (cell_value sh r) [0..<ncols sh]"

definition col_values :: "sheet \<Rightarrow> nat \<Rightarrow> pyval list" where
  "col_values sh c = map (\<lambda>r. cell_value sh r c) [0..<nrows sh]"

section \<open>get_market_price: the scan of the sheet\<close>

text \<open>
  Lines 182 and 185-196 of \<open>get_market_price\<close>. \<open>price\<close> starts as the empty string,
  \<open>colindex\<close> as \<open>None\<close>; both loops run over the whole range and overwrite on every hit.
  \<open>colname in sheet.col_values(i)\<close> is list membership by \<open>==\<close>: a \<open>str\<close> label is equal
  only to a text cell holding the same string.
\<close>

definition find_colindex :: "sheet \<Rightarrow> pystr \<Rightarrow> nat option" where
  "find_colindex sh colname =
     fold (\<lambda>i colindex. if PStr colname \<in> set (col_values sh i) then Some i else colindex)
       [0..<ncols sh] None"

definition scan_rows :: "sheet \<Rightarrow> pystr \<Rightarrow> nat \<Rightarrow> pyval" where
  "scan_rows sh rowname colindex =
     fold (\<lambda>i price. if PStr rowname \<in> set (row_values sh i) then cell_value sh i colindex
                      else price)
       [0..<nrows sh] (PStr [])"

definition get_market_price_sheet :: "sheet \<Rightarrow> pystr \<Rightarrow> pystr \<Rightarrow> pyval" where
  "get_market_price_sheet sh rowname colname =
     (case find_colindex sh colname of
        None \<Rightarrow> PStr []
      | Some colindex \<Rightarrow> scan_rows sh rowname colindex)"

text \<open>
  The labels of the program (lines 118-119): the column label, an eight-letter Cyrillic
  word given here by its code points, and the row label "A592UFM060F".
\<close>

definition target_col :: pystr where
  "target_col = [1056, 1099, 1085, 1086, 1095, 1085, 1072, 1103]"

definition target_row :: pystr where
  "target_row = ascii ''A592UFM060F''"


section \<open>The outside world\<close>

text \<open>
  The exceptions that matter to the program. \<open>except ValueError\<close> (line 153) catches
  \<open>ValueError\<close> and its subclasses, of which \<open>UnicodeDecodeError\<close> is one that the
  libraries raise; \<open>OSError\<close> stands for the failures of the network and the disk.
\<close>

datatype exn = ValueError | UnicodeDecodeError | AssertionError | TypeError | AttributeError
  | XLRDError | FileNotFoundError | OSError

definition is_ValueError :: "exn \<Rightarrow> bool" where
  "is_ValueError x \<longleftrightarrow> x = ValueError \<or> x = UnicodeDecodeError"

text \<open>
  A report file on disk, as \<open>xlrd\<close> sees it: either \<open>open_workbook\<close> (or
  \<open>sheet_by_index(0)\<close>) raises the given exception on it, or it is a workbook with the
  given first sheet.
\<close>

datatype xls = Unreadable exn | Workbook sheet

datatype datetime = DateTime nat nat nat

text \<open>
  A child of a tag in the parsed document: a text node or a nested tag.
  \<open>a_tag\<close> is what \<open>element.find("a", href=True)\<close> returns, \<open>div_elem\<close> one block found by
  \<open>findAll("div", {"class": css_class})\<close>: its first anchor with an href, if any, and the
  text of its first span, if any.
\<close>

datatype node = NavigableString pystr | Tag "node list"

record a_tag =
  href :: pystr
  contents :: "node list"

record div_elem =
  find_a :: "a_tag option"
  find_span_text :: "pystr option"

text \<open>
  The server, the disk and the two library parsers the program calls, as functions of
  their input. \<open>get_page url params\<close> is the outcome of the request for a listing page:
  the exception \<open>session.get\<close> raises (no connection, an address it refuses), or the status
  of the answer together with what \<open>response.text()\<close> then gives, the text or the exception
  of a body that cannot be decoded. \<open>get_file link\<close> is the same for a spreadsheet and
  \<open>response.read()\<close>. \<open>open_wb name\<close> is the exception that opening the report file of
  that name for writing raises, if any (\<open>FileNotFoundError\<close> when the name has a directory
  part that does not exist, \<open>ValueError\<close> on an embedded null character). \<open>findAll data\<close>
  are the blocks of class \<open>accordeon-inner__item\<close> that BeautifulSoup finds in \<open>data\<close>,
  and \<open>strptime date\<close> is the result of \<open>datetime.strptime(date, "%d.%m.%Y")\<close>, \<open>None\<close>
  when it raises \<open>ValueError\<close>.
\<close>

record env =
  get_page :: "pystr \<Rightarrow> pystr option \<Rightarrow> exn + nat \<times> (exn + pystr)"
  get_file :: "pystr \<Rightarrow> exn + nat \<times> (exn + xls)"
  open_wb :: "pystr \<Rightarrow> exn option"
  findAll :: "pystr \<Rightarrow> div_elem list"
  strptime :: "pystr \<Rightarrow> datetime option"

record report_record =
  r_date :: datetime
  r_price :: pyval
  r_path :: pystr

text \<open>
  What the program does that can be observed from outside, in order: a page task is
  created or has finished, a semaphore object (numbered in the order of creation) is
  acquired or released, and the three lines the program itself logs: a page is loaded
  from the cache, a page was fetched, a spreadsheet was downloaded (the last two are
  logged after the status was found to be 200).
\<close>

datatype event = CreateTask nat | TaskDone nat | LoadFromCache nat
  | Acquire nat | Release nat | GetPage pystr "pystr option" | GetFile pystr

text \<open>
  The state the coroutines share: the two folders (\<open>cache/<count>.html\<close> keyed by the
  count, \<open>reports/<date>.xls\<close> keyed by the file name, two names being two files), the
  \<open>records\<close> list of \<open>get_records\<close>, the number of semaphore objects created so far, and
  the log of events.
\<close>

record state =
  cache_dir :: "nat \<rightharpoonup> pystr"
  reports_dir :: "pystr \<rightharpoonup> xls"
  records :: "report_record list"
  semaphores :: nat
  trace :: "event list"

definition emit :: "event list \<Rightarrow> state \<Rightarrow> state" where
  "emit evs s = s\<lparr>trace := trace s @ evs\<rparr>"

section \<open>Constants of get_records\<close>

definition schema :: pystr where "schema = ascii ''https://''"
definition domain :: pystr where "domain = ascii ''spimex.com''"
definition url :: pystr where
  "url = schema @ domain @ ascii ''/markets/oil_products/trades/results/''"

definition text_to_search :: pystr where
  "text_to_search =
     [1041, 1102, 1083, 1083, 1077, 1090, 1077, 1085, 1100, 32, 1087, 1086, 32, 1080, 1090,
      1086, 1075, 1072, 1084, 32, 1090, 1086, 1088, 1075, 1086, 1074, 32, 1074, 32, 1057,
      1077, 1082, 1094, 1080, 1080, 32, 171, 1053, 1077, 1092, 1090, 1077, 1087, 1088, 1086,
      1076, 1091, 1082, 1090, 1099, 187]"

text \<open>\<open>str(n)\<close> of a non-negative integer: its decimal digits.\<close>

fun str_nat :: "nat \<Rightarrow> pystr" where
  "str_nat n = (if n < 10 then [48 + n] else str_nat (n div 10) @ [48 + n mod 10])"

declare str_nat.simps [simp del]

section \<open>get_html_page\<close>

text \<open>
  Reading a file opened with mode \<open>"r"\<close> translates every \<open>\r\n\<close> and every lone \<open>\r\<close>
  to \<open>\n\<close> (universal newlines, the default of \<open>open\<close>); writing with mode \<open>"w"\<close> on a
  POSIX system stores the characters as they are. The cache files are text files that
  earlier requests wrote, and their encoding is taken to represent every character of a
  page, so that reading and writing them raises nothing.
\<close>

fun universal_newlines :: "pystr \<Rightarrow> pystr" where
  "universal_newlines [] = []"
| "universal_newlines [x] = [if x = 13 then 10 else x]"
| "universal_newlines (x # y # zs) =
     (if x = 13 \<and> y = 10 then 10 # universal_newlines zs
      else if x = 13 then 10 # universal_newlines (y # zs)
      else x # universal_newlines (y # zs))"

text \<open>
  A cached page is read and returned. Otherwise a new \<open>BoundedSemaphore(5)\<close> is created
  by this very call (line 57) and acquired, the request is sent, the status asserted, the
  line logged, the text decoded, written to the cache and returned; leaving the
  \<open>async with\<close> releases the semaphore on every path. (\<open>assert\<close> is taken to be
  enabled, as it is unless the interpreter runs with \<open>-O\<close>.)
\<close>

definition get_html_page ::
  "env \<Rightarrow> pystr \<Rightarrow> pystr \<Rightarrow> nat \<Rightarrow> state \<Rightarrow> (exn + pystr) \<times> state" where
  "get_html_page e u param count s =
     (case cache_dir s count of
        Some raw \<Rightarrow> (Inr (universal_newlines raw), emit [LoadFromCache count] s)
      | None \<Rightarrow>
          (let params = (if param \<noteq> [] then Some param else None);
               sema = semaphores s;
               s1 = emit [Acquire sema] (s\<lparr>semaphores := Suc sema\<rparr>)
           in case get_page e u params of
                Inl x \<Rightarrow> (Inl x, emit [Release sema] s1)
              | Inr (status, body) \<Rightarrow>
                  if status \<noteq> 200 then (Inl AssertionError, emit [Release sema] s1)
                  else (case body of
                          Inl x \<Rightarrow> (Inl x, emit [GetPage u params, Release sema] s1)
                        | Inr data \<Rightarrow>
                            (Inr data,
                             emit [GetPage u params, Release sema]
                               (s1\<lparr>cache_dir := (cache_dir s1)(count \<mapsto> data)\<rparr>)))))"

section \<open>download_xls and get_market_price\<close>

text \<open>
  Again a semaphore of its own (line 165). The file is opened and written after the
  \<open>async with\<close> block, only when the status was 200 and the body was read.
\<close>

definition download_xls :: "env \<Rightarrow> pystr \<Rightarrow> pystr \<Rightarrow> state \<Rightarrow> (exn + unit) \<times> state" where
  "download_xls e link path s =
     (let sema = semaphores s;
          s1 = emit [Acquire sema] (s\<lparr>semaphores := Suc sema\<rparr>)
      in case get_file e link of
           Inl x \<Rightarrow> (Inl x, emit [Release sema] s1)
         | Inr (status, body) \<Rightarrow>
             if status \<noteq> 200 then (Inl AssertionError, emit [Release sema] s1)
             else (case body of
                     Inl x \<Rightarrow> (Inl x, emit [GetFile link, Release sema] s1)
                   | Inr data \<Rightarrow>
                       (case open_wb e path of
                          Some x \<Rightarrow> (Inl x, emit [GetFile link, Release sema] s1)
                        | None \<Rightarrow>
                            (Inr (),
                             (emit [GetFile link, Release sema] s1)
                               \<lparr>reports_dir := (reports_dir s1)(path \<mapsto> data)\<rparr>))))"

definition get_market_price :: "state \<Rightarrow> pystr \<Rightarrow> pystr \<Rightarrow> pystr \<Rightarrow> exn + pyval" where
  "get_market_price s path rowname colname =
     (case reports_dir s path of
        None \<Rightarrow> Inl FileNotFoundError
      | Some (Unreadable x) \<Rightarrow> Inl x
      | Some (Workbook sh) \<Rightarrow> Inr (get_market_price_sheet sh rowname colname))"

section \<open>download_and_analyze_report\<close>

text \<open>
  \<open>text_to_search in tag\<close> on a BeautifulSoup tag is \<open>text_to_search in tag.contents\<close>:
  true when a direct child of the anchor is a string equal to the phrase. On \<open>None\<close> (no
  anchor) it raises \<open>TypeError\<close>; \<open>element.find("span").text\<close> without a span raises
  \<open>AttributeError\<close>.
\<close>

definition tag_contains :: "a_tag \<Rightarrow> pystr \<Rightarrow> bool" where
  "tag_contains tag x \<longleftrightarrow> NavigableString x \<in> set (contents tag)"

definition report_path :: "pystr \<Rightarrow> pystr" where
  "report_path date = date @ ascii ''.xls''"

text \<open>Lines 132-134: the download happens only when the file is not there.\<close>

definition ensure_report :: "env \<Rightarrow> a_tag \<Rightarrow> pystr \<Rightarrow> state \<Rightarrow> (exn + unit) \<times> state" where
  "ensure_report e tag path s =
     (if reports_dir s path = None then download_xls e (schema @ domain @ href tag) path s
      else (Inr (), s))"

text \<open>Lines 136-147: the price, the deletion on a falsy price, the record.\<close>

definition extract_and_record :: "env \<Rightarrow> pystr \<Rightarrow> pystr \<Rightarrow> state \<Rightarrow> (exn + unit) \<times> state" where
  "extract_and_record e date path s =
     (case get_market_price s path target_row target_col of
        Inl x \<Rightarrow> (Inl x, s)
      | Inr price \<Rightarrow>
          if \<not> truthy price
          then (Inl ValueError, s\<lparr>reports_dir := (reports_dir s)(path := None)\<rparr>)
          else (case strptime e date of
                  None \<Rightarrow> (Inl ValueError, s)
                | Some d \<Rightarrow>
                    (Inr (), s\<lparr>records := records s @
                                 [\<lparr>r_date = d, r_price = price, r_path = path\<rparr>]\<rparr>)))"

text \<open>The body of \<open>for element in elements\<close> (lines 125-147).\<close>

definition analyze_element :: "env \<Rightarrow> div_elem \<Rightarrow> state \<Rightarrow> (exn + unit) \<times> state" where
  "analyze_element e element s =
     (case find_a element of
        None \<Rightarrow> (Inl TypeError, s)
      | Some tag \<Rightarrow>
          if tag_contains tag text_to_search
          then (case find_span_text element of
                  None \<Rightarrow> (Inl AttributeError, s)
                | Some date \<Rightarrow>
                    (case ensure_report e tag (report_path date) s of
                       (Inl x, s1) \<Rightarrow> (Inl x, s1)
                     | (Inr _, s1) \<Rightarrow> extract_and_record e date (report_path date) s1))
          else (Inr (), s))"

fun analyze_elements :: "env \<Rightarrow> div_elem list \<Rightarrow> state \<Rightarrow> (exn + unit) \<times> state" where
  "analyze_elements e [] s = (Inr (), s)"
| "analyze_elements e (element # elements) s =
     (case analyze_element e element s of
        (Inl x, s1) \<Rightarrow> (Inl x, s1)
      | (Inr _, s1) \<Rightarrow> analyze_elements e elements s1)"

definition download_and_analyze_report ::
  "env \<Rightarrow> pystr \<Rightarrow> pystr \<Rightarrow> nat \<Rightarrow> state \<Rightarrow> (exn + unit) \<times> state" where
  "download_and_analyze_report e u param count s =
     (case get_html_page e u param count s of
        (Inl x, s1) \<Rightarrow> (Inl x, s1)
      | (Inr data, s1) \<Rightarrow> analyze_elements e (findAll e data) s1)"

section \<open>get_records: the tasks and the loop\<close>

text \<open>
  A task created by \<open>loop.create_task\<close>: the arguments of its coroutine and whether it
  has finished. \<open>run_until_complete(asyncio.gather(*tasks))\<close> returns when every task of
  the list has finished, or raises the exception of the first one that fails. Tasks that
  have finished are not run again; the unfinished ones are run here one after the other in
  list order (the loop below never holds more than one unfinished task, see
  \<open>loop_head_tasks_done\<close>, so no interleaving is lost).
\<close>

datatype task = Task (task_param: pystr) (task_count: nat) (task_done: bool)

fun gather :: "env \<Rightarrow> task list \<Rightarrow> state \<Rightarrow> exn option \<times> task list \<times> state" where
  "gather e [] s = (None, [], s)"
| "gather e (t # ts) s =
     (if task_done t
      then (case gather e ts s of (r, ts', s') \<Rightarrow> (r, t # ts', s'))
      else (case download_and_analyze_report e url (task_param t) (task_count t) s of
              (Inl x, s1) \<Rightarrow>
                (Some x, Task (task_param t) (task_count t) True # ts,
                 emit [TaskDone (task_count t)] s1)
            | (Inr _, s1) \<Rightarrow>
                (case gather e ts (emit [TaskDone (task_count t)] s1) of
                   (r, ts', s') \<Rightarrow> (r, Task (task_param t) (task_count t) True # ts', s'))))"

text \<open>
  One pass through the body of \<open>while True\<close> (lines 109-154): it either goes round
  again, or leaves by \<open>break\<close> on a \<open>ValueError\<close> or a subclass of it, or lets another
  exception escape.
\<close>

datatype step = Continue nat nat "task list" state | Break state | Raise exn state

definition iteration :: "env \<Rightarrow> nat \<Rightarrow> nat \<Rightarrow> task list \<Rightarrow> state \<Rightarrow> step" where
  "iteration e count page_num tasks s =
     (let count' = count + 1;
          page_num' = (if count' > 1 then page_num + 1 else page_num);
          param = (if count' > 1 then ascii ''page-'' @ str_nat page_num' else []);
          tasks' = tasks @ [Task param count' False];
          s1 = emit [CreateTask count'] s
      in case gather e tasks' s1 of
           (None, tasks'', s2) \<Rightarrow> Continue count' page_num' tasks'' s2
         | (Some x, tasks'', s2) \<Rightarrow> if is_ValueError x then Break s2 else Raise x s2)"

partial_function (option) crawl ::
  "env \<Rightarrow> nat \<Rightarrow> nat \<Rightarrow> task list \<Rightarrow> state \<Rightarrow> ((exn + report_record list) \<times> state) option" where
  "crawl e count page_num tasks s =
     (case iteration e count page_num tasks s of
        Continue count' page_num' tasks' s' \<Rightarrow> crawl e count' page_num' tasks' s'
      | Break s' \<Rightarrow> Some (Inr (records s'), s')
      | Raise x s' \<Rightarrow> Some (Inl x, s'))"

declare crawl.simps [code]

definition init_state :: "(nat \<rightharpoonup> pystr) \<Rightarrow> (pystr \<rightharpoonup> xls) \<Rightarrow> state" where
  "init_state cache reports =
     \<lparr>cache_dir = cache, reports_dir = reports, records = [], semaphores = 0, trace = []\<rparr>"

text \<open>
  \<open>get_records\<close> on the two folders as it finds them, on an interpreter whose
  \<open>asyncio.get_event_loop()\<close> hands out a loop (line 106). \<open>None\<close> is a run that never
  leaves the loop; otherwise the list it returns or the exception that escapes, with the
  final state.
\<close>

definition get_records ::
  "env \<Rightarrow> (nat \<rightharpoonup> pystr) \<Rightarrow> (pystr \<rightharpoonup> xls) \<Rightarrow> ((exn + report_record list) \<times> state) option" where
  "get_records e cache reports = crawl e 0 0 [] (init_state cache reports)"

text \<open>The heads of the loop that a run started on the given folders reaches.\<close>

inductive loop_head ::
  "env \<Rightarrow> (nat \<rightharpoonup> pystr) \<Rightarrow> (pystr \<rightharpoonup> xls) \<Rightarrow> nat \<Rightarrow> nat \<Rightarrow> task list \<Rightarrow> state \<Rightarrow> bool"
  for e cache reports where
  loop_start: "loop_head e cache reports 0 0 [] (init_state cache reports)"
| loop_next: "loop_head e cache reports count page_num tasks s \<Longrightarrow>
     iteration e count page_num tasks s = Continue count' page_num' tasks' s' \<Longrightarrow>
     loop_head e cache reports count' page_num' tasks' s'"


section \<open>Notions used to state the properties\<close>

text \<open>
  \<open>last_match P n i\<close>: \<open>i\<close> is the last index below \<open>n\<close> at which \<open>P\<close> holds.
  \<open>col_has\<close> and \<open>row_has\<close>: the values of a column, or of a row, contain the label exactly.
\<close>

definition last_match :: "(nat \<Rightarrow> bool) \<Rightarrow> nat \<Rightarrow> nat \<Rightarrow> bool" where
  "last_match P n i \<longleftrightarrow> i < n \<and> P i \<and> (\<forall>j\<in>set [Suc i..<n]. \<not> P j)"

definition col_has :: "sheet \<Rightarrow> pystr \<Rightarrow> nat \<Rightarrow> bool" where
  "col_has sh colname c \<longleftrightarrow> PStr colname \<in> set (col_values sh c)"

definition row_has :: "sheet \<Rightarrow> pystr \<Rightarrow> nat \<Rightarrow> bool" where
  "row_has sh rowname r \<longleftrightarrow> PStr rowname \<in> set (row_values sh r)"

text \<open>The index the row loop ends on, were it to keep the index instead of the cell.\<close>

definition find_rowindex :: "sheet \<Rightarrow> pystr \<Rightarrow> nat option" where
  "find_rowindex sh rowname =
     fold (\<lambda>i acc. if row_has sh rowname i then Some i else acc) [0..<nrows sh] None"

text \<open>
  The pagination parameter of the page requested after \<open>count\<close> pages: none for the first
  page, \<open>page-<count>\<close> afterwards.
\<close>

definition page_param :: "nat \<Rightarrow> pystr" where
  "page_param count = (if 0 < count then ascii ''page-'' @ str_nat count else [])"

text \<open>
  A report file with a successful extraction: \<open>xlrd\<close> can open it and the target cell is
  truthy. A report file whose extraction is absent: \<open>xlrd\<close> can open it and the scan
  yields a falsy value. \<open>reports_ok\<close>: no file of the reports folder is of the second
  kind, so each has a successful extraction or cannot be opened at all.
\<close>

definition good_xls :: "xls \<Rightarrow> bool" where
  "good_xls x \<longleftrightarrow>
     (case x of Unreadable _ \<Rightarrow> False
      | Workbook sh \<Rightarrow> truthy (get_market_price_sheet sh target_row target_col))"

definition absent_xls :: "xls \<Rightarrow> bool" where
  "absent_xls x \<longleftrightarrow>
     (case x of Unreadable _ \<Rightarrow> False
      | Workbook sh \<Rightarrow> \<not> truthy (get_market_price_sheet sh target_row target_col))"

definition reports_ok :: "(pystr \<rightharpoonup> xls) \<Rightarrow> bool" where
  "reports_ok d \<longleftrightarrow> (\<forall>p x. d p = Some x \<longrightarrow> \<not> absent_xls x)"

text \<open>
  The reports folder and the records agree: no file has an absent extraction, and the
  file of every record is there and yields the record's truthy price. \<open>keeps s s'\<close>: the
  later state \<open>s'\<close> is in that condition and still has every file of \<open>s\<close>, unchanged.
\<close>

definition cache_inv :: "state \<Rightarrow> bool" where
  "cache_inv s \<longleftrightarrow>
     reports_ok (reports_dir s)
     \<and> (\<forall>r\<in>set (records s).
           get_market_price s (r_path r) target_row target_col = Inr (r_price r)
           \<and> truthy (r_price r))"

definition keeps :: "state \<Rightarrow> state \<Rightarrow> bool" where
  "keeps s s' \<longleftrightarrow>
     cache_inv s' \<and> (\<forall>p x. reports_dir s p = Some x \<longrightarrow> reports_dir s' p = Some x)"

text \<open>
  The text of an anchor (all the strings below it, concatenated), substring containment
  as Python's \<open>in\<close> on two strings decides it, and the blocks the loop body takes up.
\<close>

fun node_text :: "node \<Rightarrow> pystr" where
  "node_text (NavigableString x) = x"
| "node_text (Tag ns) = concat (map node_text ns)"

definition anchor_text :: "a_tag \<Rightarrow> pystr" where
  "anchor_text tag = concat (map node_text (contents tag))"

definition str_contains :: "pystr \<Rightarrow> pystr \<Rightarrow> bool" where
  "str_contains s x \<longleftrightarrow> (\<exists>n\<in>set [0..<Suc (length s)]. take (length x) (drop n s) = x)"

definition is_bulletin :: "div_elem \<Rightarrow> bool" where
  "is_bulletin element \<longleftrightarrow>
     (case find_a element of None \<Rightarrow> False | Some tag \<Rightarrow> tag_contains tag text_to_search)"

text \<open>Projections of the log: the semaphores acquired, and the task events.\<close>

definition acquired :: "event list \<Rightarrow> nat list" where
  "acquired evs = concat (map (\<lambda>ev. case ev of Acquire n \<Rightarrow> [n] | _ \<Rightarrow> []) evs)"

definition task_events :: "event list \<Rightarrow> event list" where
  "task_events evs =
     filter (\<lambda>ev. case ev of CreateTask _ \<Rightarrow> True | TaskDone _ \<Rightarrow> True | _ \<Rightarrow> False) evs"

section \<open>Example worlds\<close>

text \<open>
  A reading of \<open>strptime\<close> with the format \<open>%d.%m.%Y\<close> for the examples: three fields of
  ASCII digits separated by dots that form a calendar date; the day may be a space and
  one digit.
\<close>

fun split_on :: "nat \<Rightarrow> pystr \<Rightarrow> pystr list" where
  "split_on c [] = [[]]"
| "split_on c (x # xs) =
     (if x = c then [] # split_on c xs
      else (case split_on c xs of [] \<Rightarrow> [[x]] | p # ps \<Rightarrow> (x # p) # ps))"

definition all_digits :: "pystr \<Rightarrow> bool" where
  "all_digits s \<longleftrightarrow> s \<noteq> [] \<and> (\<forall>c\<in>set s. 48 \<le> c \<and> c \<le> 57)"

definition digits_val :: "pystr \<Rightarrow> nat" where
  "digits_val s = fold (\<lambda>c acc. 10 * acc + (c - 48)) s 0"

definition days_in_month :: "nat \<Rightarrow> nat \<Rightarrow> nat" where
  "days_in_month y m =
     (if m = 2 then (if y mod 4 = 0 \<and> (y mod 100 \<noteq> 0 \<or> y mod 400 = 0) then 29 else 28)
      else if m = 4 \<or> m = 6 \<or> m = 9 \<or> m = 11 then 30 else 31)"

definition strptime_dmY :: "pystr \<Rightarrow> datetime option" where
  "strptime_dmY s =
     (case split_on 46 s of
        [d0, m, y] \<Rightarrow>
          let d = (if length d0 = 2 \<and> hd d0 = 32 then tl d0 else d0) in
          if all_digits d \<and> all_digits m \<and> all_digits y \<and> length d \<le> 2 \<and> length m \<le> 2
             \<and> length y = 4 \<and> 1 \<le> digits_val y \<and> 1 \<le> digits_val m \<and> digits_val m \<le> 12
             \<and> 1 \<le> digits_val d \<and> digits_val d \<le> days_in_month (digits_val y) (digits_val m)
          then Some (DateTime (digits_val y) (digits_val m) (digits_val d))
          else None
      | _ \<Rightarrow> None)"

text \<open>
  A site given by three tables: the text of each listing page by its \<open>page\<close> parameter,
  the body of each spreadsheet by its address, the blocks of each page text. Anything not
  in a table is answered with status 404. The reports folder has no subdirectories: a name
  with a slash cannot be opened for writing, nor can one with a null character.
\<close>

definition flat_folder :: "pystr \<Rightarrow> exn option" where
  "flat_folder name =
     (if 0 \<in> set name then Some ValueError
      else if 47 \<in> set name then Some FileNotFoundError else None)"


definition site ::
  "(pystr option \<times> pystr) list \<Rightarrow> (pystr \<times> xls) list \<Rightarrow> (pystr \<times> div_elem list) list \<Rightarrow> env" where
  "site pages files blocks =
     \<lparr>get_page = (\<lambda>u params. case map_of pages params of
                                 Some text \<Rightarrow> Inr (200, Inr text)
                               | None \<Rightarrow> Inr (404, Inr [])),
      get_file = (\<lambda>link. case map_of files link of
                            Some x \<Rightarrow> Inr (200, Inr x)
                          | None \<Rightarrow> Inr (404, Inr (Unreadable XLRDError))),
      open_wb = flat_folder,
      findAll = (\<lambda>data. case map_of blocks data of Some els \<Rightarrow> els | None \<Rightarrow> []),
      strptime = strptime_dmY\<rparr>"

definition bulletin :: "pystr \<Rightarrow> pystr \<Rightarrow> div_elem" where
  "bulletin link date =
     \<lparr>find_a = Some \<lparr>href = link, contents = [NavigableString text_to_search]\<rparr>,
      find_span_text = Some date\<rparr>"

definition priced_sheet :: "pyval \<Rightarrow> sheet" where
  "priced_sheet v = [[PStr (ascii ''Code''), PStr target_col],
                     [PStr target_row, v]]"

definition file_url :: "string \<Rightarrow> pystr" where
  "file_url name = schema @ domain @ ascii name"

text \<open>
  The sheet of the specification's example: the header row \<open>A, target_col, B\<close> and the row
  \<open>x, A592UFM060F, 42.5\<close>; a sheet with the column label in two columns and the row label
  in two rows; a sheet without the column; a sheet without the row.
\<close>

definition example_sheet :: sheet where
  "example_sheet =
     [[PStr (ascii ''A''), PStr target_col, PStr (ascii ''B'')],
      [PStr (ascii ''x''), PStr target_row, PStr (ascii ''42.5'')]]"

definition two_hits_sheet :: sheet where
  "two_hits_sheet =
     [[PStr (ascii ''Code''), PStr target_col, PStr target_col],
      [PStr target_row, PFloat 1, PFloat 2],
      [PStr target_row, PFloat 3, PFloat 4],
      [PStr (ascii ''x''), PFloat 5, PFloat 6]]"

definition no_column_sheet :: sheet where
  "no_column_sheet = [[PStr (ascii ''Code''), PStr (ascii ''B'')], [PStr target_row, PFloat 42.5]]"

definition no_row_sheet :: sheet where
  "no_row_sheet = [[PStr (ascii ''Code''), PStr target_col], [PStr (ascii ''x''), PFloat 42.5]]"

text \<open>
  Three listing pages with one bulletin each; the third bulletin's sheet has no
  target column.
\<close>

definition three_pages :: env where
  "three_pages =
     site [(None, ascii ''one''), (Some (ascii ''page-1''), ascii ''two''),
           (Some (ascii ''page-2''), ascii ''three'')]
          [(file_url ''/f1.xls'', Workbook (priced_sheet (PFloat 42.5))),
           (file_url ''/f2.xls'', Workbook (priced_sheet (PFloat 40))),
           (file_url ''/f3.xls'', Workbook no_column_sheet)]
          [(ascii ''one'', [bulletin (ascii ''/f1.xls'') (ascii ''03.02.2023'')]),
           (ascii ''two'', [bulletin (ascii ''/f2.xls'') (ascii ''02.02.2023'')]),
           (ascii ''three'', [bulletin (ascii ''/f3.xls'') (ascii ''01.02.2023'')])]"

text \<open>
  One page whose bulletin has a price but a label, \<open>03-02-2023\<close>, that is not a date in
  the format of the program.
\<close>

definition bad_date_site :: env where
  "bad_date_site =
     site [(None, ascii ''one'')]
          [(file_url ''/f1.xls'', Workbook (priced_sheet (PFloat 42.5)))]
          [(ascii ''one'', [bulletin (ascii ''/f1.xls'') (ascii ''03-02-2023'')])]"

text \<open>
  One page whose download is answered with status 200 and a body that is no workbook; and
  the same with a body on which the workbook reader fails to decode a string.
\<close>

definition undecodable_site :: env where
  "undecodable_site =
     site [(None, ascii ''one'')]
          [(file_url ''/f1.xls'', Unreadable UnicodeDecodeError)]
          [(ascii ''one'', [bulletin (ascii ''/f1.xls'') (ascii ''03.02.2023'')])]"


definition garbage_site :: env where
  "garbage_site =
     site [(None, ascii ''one'')]
          [(file_url ''/f1.xls'', Unreadable XLRDError)]
          [(ascii ''one'', [bulletin (ascii ''/f1.xls'') (ascii ''03.02.2023'')])]"

text \<open>One page whose text has a line ending \<open>\r\n\<close> and no blocks.\<close>

definition crlf_site :: env where
  "crlf_site = site [(None, [97, 13, 10, 98])] [] []"

text \<open>A site that answers every page request with an empty listing.\<close>

definition endless_site :: env where
  "endless_site =
     \<lparr>get_page = (\<lambda>u params. Inr (200, Inr [])),
      get_file = (\<lambda>link. Inr (404, Inr (Unreadable XLRDError))),
      open_wb = flat_folder, findAll = (\<lambda>data. []), strptime = strptime_dmY\<rparr>"

text \<open>One page whose bulletin quotes the price 0.0.\<close>

definition zero_price_site :: env where
  "zero_price_site =
     site [(None, ascii ''one'')]
          [(file_url ''/f1.xls'', Workbook (priced_sheet (PFloat 0)))]
          [(ascii ''one'', [bulletin (ascii ''/f1.xls'') (ascii ''03.02.2023'')])]"

text \<open>
  A block whose anchor text is the phrase followed by a date, in one string; and a block
  of another kind.
\<close>

definition dated_title :: a_tag where
  "dated_title =
     \<lparr>href = ascii ''/f1.xls'',
      contents = [NavigableString (text_to_search @ ascii '' 03.02.2023'')]\<rparr>"

definition dated_title_block :: div_elem where
  "dated_title_block =
     \<lparr>find_a = Some dated_title, find_span_text = Some (ascii ''03.02.2023'')\<rparr>"

definition other_block :: div_elem where
  "other_block =
     \<lparr>find_a = Some \<lparr>href = ascii ''/other.pdf'', contents = [NavigableString (ascii ''Other'')]\<rparr>,
      find_span_text = Some (ascii ''03.02.2023'')\<rparr>"

section \<open>Evaluation\<close>

lemmas sheet_defs = get_market_price_sheet_def find_colindex_def scan_rows_def ncols_def
  nrows_def col_values_def row_values_def cell_value_def target_col_def target_row_def
  ascii_def upt_conv_Cons priced_sheet_def example_sheet_def no_column_sheet_def
  no_row_sheet_def two_hits_sheet_def last_match_def col_has_def row_has_def

lemmas run_defs = sheet_defs site_def flat_folder_def is_ValueError_def get_html_page_def init_state_def emit_def url_def
  schema_def domain_def file_url_def download_xls_def get_market_price_def tag_contains_def
  report_path_def ensure_report_def extract_and_record_def analyze_element_def
  download_and_analyze_report_def iteration_def get_records_def bulletin_def
  text_to_search_def str_nat.simps Let_def strptime_dmY_def all_digits_def digits_val_def
  days_in_month_def page_param_def crawl.simps

section \<open>The scan of the sheet\<close>

lemma fold_index_None:
  "fold (\<lambda>i acc. if P i then Some i else acc) [0..<n] None = None \<longleftrightarrow>
     (\<forall>j\<in>set [0..<n]. \<not> P j)"
  by (induction n) auto

lemma fold_index_Some:
  "fold (\<lambda>i acc. if P i then Some i else acc) [0..<n] None = Some i \<longleftrightarrow> last_match P n i"
proof (induction n)
  case 0
  show ?case by (simp add: last_match_def)
next
  case (Suc n)
  show ?case
  proof (cases "P n")
    case True
    then show ?thesis by (auto simp: last_match_def less_Suc_eq)
  next
    case False
    then show ?thesis using Suc by (auto simp: last_match_def less_Suc_eq)
  qed
qed

lemma fold_value_last:
  "fold (\<lambda>i acc. if P i then f i else acc) [0..<n] d =
     (case fold (\<lambda>i acc. if P i then Some i else acc) [0..<n] None of
        None \<Rightarrow> d | Some i \<Rightarrow> f i)"
  by (induction n) auto

lemma last_match_unique: "last_match P n i \<Longrightarrow> last_match P n j \<Longrightarrow> i = j"
  unfolding last_match_def by (metis Suc_leI atLeastLessThan_iff linorder_neqE_nat set_upt)

lemma find_colindex_Some:
  "find_colindex sh colname = Some c \<longleftrightarrow> last_match (col_has sh colname) (ncols sh) c"
  using fold_index_Some[of "col_has sh colname" "ncols sh" c]
  by (simp add: find_colindex_def col_has_def[abs_def])

lemma find_colindex_None:
  "find_colindex sh colname = None \<longleftrightarrow> (\<forall>c\<in>set [0..<ncols sh]. \<not> col_has sh colname c)"
  using fold_index_None[of "col_has sh colname" "ncols sh"]
  by (simp add: find_colindex_def col_has_def[abs_def])

lemma scan_rows_last:
  "scan_rows sh rowname c =
     (case find_rowindex sh rowname of None \<Rightarrow> PStr [] | Some r \<Rightarrow> cell_value sh r c)"
  using fold_value_last[of "row_has sh rowname" "\<lambda>i. cell_value sh i c" "nrows sh" "PStr []"]
  by (simp add: scan_rows_def find_rowindex_def row_has_def[abs_def])

lemma find_rowindex_Some:
  "find_rowindex sh rowname = Some r \<longleftrightarrow> last_match (row_has sh rowname) (nrows sh) r"
  unfolding find_rowindex_def by (rule fold_index_Some)

lemma find_rowindex_None:
  "find_rowindex sh rowname = None \<longleftrightarrow> (\<forall>r\<in>set [0..<nrows sh]. \<not> row_has sh rowname r)"
  unfolding find_rowindex_def using fold_index_None[of "row_has sh rowname" "nrows sh"] by simp

lemma get_market_price_sheet_cases:
  "get_market_price_sheet sh rowname colname =
     (case find_colindex sh colname of
        None \<Rightarrow> PStr []
      | Some c \<Rightarrow> (case find_rowindex sh rowname of
                     None \<Rightarrow> PStr []
                   | Some r \<Rightarrow> cell_value sh r c))"
  by (simp add: get_market_price_sheet_def scan_rows_last split: option.splits)

lemma scan_returns_crossing:
  assumes "last_match (col_has sh colname) (ncols sh) c"
      and "last_match (row_has sh rowname) (nrows sh) r"
  shows "get_market_price_sheet sh rowname colname = cell_value sh r c"
  using assms
  by (simp add: get_market_price_sheet_cases find_colindex_Some[symmetric]
      find_rowindex_Some[symmetric])

text \<open>
  C5 (amended). The scan takes the last column whose values contain the column label and
  the last row whose values contain the row label, both loops running to the end, and
  returns the cell where they cross. (On the sheet of the specification's example that
  cell holds the row label itself, since the label stands in the target column.)
\<close>

theorem get_market_price_last_column_last_row:
  assumes "last_match (col_has sh colname) (ncols sh) c"
      and "last_match (row_has sh rowname) (nrows sh) r"
  shows "get_market_price_sheet sh rowname colname = cell_value sh r c"
proof -
  from assms(1) have c: "find_colindex sh colname = Some c"
    by (simp add: find_colindex_Some)
  from assms(2) have r: "find_rowindex sh rowname = Some r"
    by (simp add: find_rowindex_Some)
  have "get_market_price_sheet sh rowname colname = scan_rows sh rowname c"
    using c by (simp add: get_market_price_sheet_def)
  also have "\<dots> = cell_value sh r c"
    using r by (simp add: scan_rows_last)
  finally show ?thesis .
qed

text \<open>
  On a sheet with two matching columns and two matching rows the last of each wins.
\<close>

theorem get_market_price_last_column_last_row_witness:
  "last_match (col_has two_hits_sheet target_col) (ncols two_hits_sheet) 2
   \<and> last_match (row_has two_hits_sheet target_row) (nrows two_hits_sheet) 2
   \<and> get_market_price_sheet two_hits_sheet target_row target_col = PFloat 4"
proof -
  have c: "last_match (col_has two_hits_sheet target_col) (ncols two_hits_sheet) 2"
    by (simp add: sheet_defs)
  have r: "last_match (row_has two_hits_sheet target_row) (nrows two_hits_sheet) 2"
    by (simp add: sheet_defs)
  have "cell_value two_hits_sheet 2 2 = PFloat 4"
    by (simp add: sheet_defs)
  with get_market_price_last_column_last_row[OF c r] c r show ?thesis by simp
qed

text \<open>
  The worked example as stated: with the header row \<open>A, target_col, B\<close> and the row
  \<open>x, A592UFM060F, 42.5\<close> the scan does not return 42.5; it returns the cell of that
  row in the target column, which is the row label.
\<close>

theorem example_sheet_yields_row_label:
  "get_market_price_sheet example_sheet target_row target_col = PStr (ascii ''A592UFM060F'')
   \<and> get_market_price_sheet example_sheet target_row target_col \<noteq> PStr (ascii ''42.5'')
   \<and> get_market_price_sheet example_sheet target_row target_col \<noteq> PFloat 42.5"
  by (simp add: sheet_defs)

text \<open>
  C6. The scan returns the empty string (no value) exactly when no column contains the
  column label, or no row contains the row label, or the cell where the last matching
  row and the last matching column cross is the empty string; in every other case it
  returns that cell.
\<close>

theorem get_market_price_absent_iff:
  "(get_market_price_sheet sh rowname colname = PStr [] \<longleftrightarrow>
      (\<forall>c\<in>set [0..<ncols sh]. \<not> col_has sh colname c)
      \<or> (\<forall>r\<in>set [0..<nrows sh]. \<not> row_has sh rowname r)
      \<or> (\<exists>c r. last_match (col_has sh colname) (ncols sh) c
                \<and> last_match (row_has sh rowname) (nrows sh) r
                \<and> cell_value sh r c = PStr []))
   \<and> (get_market_price_sheet sh rowname colname \<noteq> PStr [] \<longrightarrow>
      (\<exists>c r. last_match (col_has sh colname) (ncols sh) c
                \<and> last_match (row_has sh rowname) (nrows sh) r
                \<and> get_market_price_sheet sh rowname colname = cell_value sh r c))"
  (is "(?G = PStr [] \<longleftrightarrow> ?A \<or> ?B \<or> ?C) \<and> (?G \<noteq> PStr [] \<longrightarrow> ?D)")
proof (cases "find_colindex sh colname")
  case None
  then have v: "get_market_price_sheet sh rowname colname = PStr []"
    by (simp add: get_market_price_sheet_cases)
  from None have "\<forall>c\<in>set [0..<ncols sh]. \<not> col_has sh colname c"
    using find_colindex_None[of sh colname] by blast
  with v show ?thesis by simp
next
  case (Some c)
  note col = this
  then have nc: "\<not> (\<forall>c\<in>set [0..<ncols sh]. \<not> col_has sh colname c)"
    using find_colindex_None[of sh colname] by simp
  show ?thesis
  proof (cases "find_rowindex sh rowname")
    case None
    with col have v: "get_market_price_sheet sh rowname colname = PStr []"
      by (simp add: get_market_price_sheet_cases)
    from None have "\<forall>r\<in>set [0..<nrows sh]. \<not> row_has sh rowname r"
      using find_rowindex_None[of sh rowname] by blast
    with v show ?thesis by simp
  next
    case (Some r)
    then have nr: "\<not> (\<forall>r\<in>set [0..<nrows sh]. \<not> row_has sh rowname r)"
      using find_rowindex_None[of sh rowname] by simp
    have lc: "last_match (col_has sh colname) (ncols sh) c"
      using col by (simp add: find_colindex_Some)
    have lr: "last_match (row_has sh rowname) (nrows sh) r"
      using Some by (simp add: find_rowindex_Some)
    have v: "get_market_price_sheet sh rowname colname = cell_value sh r c"
      using col Some by (simp add: get_market_price_sheet_cases)
    have u: "\<And>c' r'. last_match (col_has sh colname) (ncols sh) c' \<Longrightarrow>
        last_match (row_has sh rowname) (nrows sh) r' \<Longrightarrow> c' = c \<and> r' = r"
      using lc lr last_match_unique by blast
    show ?thesis
    proof (intro conjI impI)
      show "?G = PStr [] \<longleftrightarrow> ?A \<or> ?B \<or> ?C"
      proof
        assume "?G = PStr []"
        with v have "cell_value sh r c = PStr []" by simp
        with lc lr show "?A \<or> ?B \<or> ?C" by blast
      next
        assume "?A \<or> ?B \<or> ?C"
        with nc nr obtain c' r' where h: "last_match (col_has sh colname) (ncols sh) c'"
          "last_match (row_has sh rowname) (nrows sh) r'" "cell_value sh r' c' = PStr []"
          by blast
        from u[OF h(1) h(2)] h(3) have "cell_value sh r c = PStr []" by simp
        with v show "?G = PStr []" by simp
      qed
      show "?D" using lc lr v by blast
    qed
  qed
qed

text \<open>The three ways to no value, each on a sheet of its own.\<close>

theorem get_market_price_absent_iff_witness:
  "get_market_price_sheet no_column_sheet target_row target_col = PStr []
   \<and> get_market_price_sheet no_row_sheet target_row target_col = PStr []
   \<and> last_match (col_has (priced_sheet (PStr [])) target_col) (ncols (priced_sheet (PStr []))) 1
   \<and> last_match (row_has (priced_sheet (PStr [])) target_row) (nrows (priced_sheet (PStr []))) 1
   \<and> cell_value (priced_sheet (PStr [])) 1 1 = PStr []
   \<and> get_market_price_sheet (priced_sheet (PStr [])) target_row target_col = PStr []"
proof -
  have a: "\<forall>c\<in>set [0..<ncols no_column_sheet]. \<not> col_has no_column_sheet target_col c"
    by (simp add: sheet_defs)
  have b: "\<forall>r\<in>set [0..<nrows no_row_sheet]. \<not> row_has no_row_sheet target_row r"
    by (simp add: sheet_defs)
  have c: "last_match (col_has (priced_sheet (PStr [])) target_col) (ncols (priced_sheet (PStr []))) 1"
    by (simp add: sheet_defs)
  have d: "last_match (row_has (priced_sheet (PStr [])) target_row) (nrows (priced_sheet (PStr []))) 1"
    by (simp add: sheet_defs)
  have e: "cell_value (priced_sheet (PStr [])) 1 1 = PStr []"
    by (simp add: sheet_defs)
  from a have 1: "get_market_price_sheet no_column_sheet target_row target_col = PStr []"
    using get_market_price_absent_iff[of no_column_sheet target_row target_col] by blast
  from b have 2: "get_market_price_sheet no_row_sheet target_row target_col = PStr []"
    using get_market_price_absent_iff[of no_row_sheet target_row target_col] by blast
  from c d e have 3: "get_market_price_sheet (priced_sheet (PStr [])) target_row target_col = PStr []"
    using get_market_price_absent_iff[of "priced_sheet (PStr [])" target_row target_col] by blast
  from c d e 1 2 3 show ?thesis by blast
qed

section \<open>The loop\<close>

lemma gather_done: "\<forall>t\<in>set ts. task_done t \<Longrightarrow> gather e ts s = (None, ts, s)"
  by (induction ts) auto

lemma gather_new:
  "\<forall>t\<in>set ts. task_done t \<Longrightarrow>
   gather e (ts @ [Task p c False]) s =
     (case download_and_analyze_report e url p c s of
        (Inl x, s1) \<Rightarrow> (Some x, ts @ [Task p c True], emit [TaskDone c] s1)
      | (Inr _, s1) \<Rightarrow> (None, ts @ [Task p c True], emit [TaskDone c] s1))"
  by (induction ts) (auto split: prod.splits sum.splits)

lemma iteration_done:
  assumes "\<forall>t\<in>set tasks. task_done t"
  shows "iteration e count page_num tasks s =
     (let param = (if 0 < count then ascii ''page-'' @ str_nat (Suc page_num) else [])
      in case download_and_analyze_report e url param (Suc count)
                (emit [CreateTask (Suc count)] s) of
        (Inl x, s1) \<Rightarrow> if is_ValueError x then Break (emit [TaskDone (Suc count)] s1)
                        else Raise x (emit [TaskDone (Suc count)] s1)
      | (Inr _, s1) \<Rightarrow> Continue (Suc count) (if 0 < count then Suc page_num else page_num)
           (tasks @ [Task param (Suc count) True]) (emit [TaskDone (Suc count)] s1))"
  using assms by (simp add: iteration_def gather_new Let_def split: prod.splits sum.splits)

lemma iteration_Continue_tasks:
  assumes "\<forall>t\<in>set tasks. task_done t"
      and "iteration e count page_num tasks s = Continue count' page_num' tasks' s'"
  shows "(\<forall>t\<in>set tasks'. task_done t) \<and> count' = Suc count
         \<and> map task_count tasks' = map task_count tasks @ [Suc count]
         \<and> page_num' = (if 0 < count then Suc page_num else page_num)"
  using assms(2) unfolding iteration_done[OF assms(1)]
  by (auto simp: Let_def split: prod.splits sum.splits if_splits) (use assms(1) in auto)

lemma loop_head_tasks_done:
  "loop_head e cache reports count page_num tasks s \<Longrightarrow>
     (\<forall>t\<in>set tasks. task_done t) \<and> map task_count tasks = [1..<Suc count]
     \<and> page_num = count - 1"
proof (induction rule: loop_head.induct)
  case loop_start
  show ?case by simp
next
  case (loop_next count page_num tasks s count' page_num' tasks' s')
  from iteration_Continue_tasks[OF _ loop_next.hyps(2)] loop_next.IH
  show ?case by auto
qed

lemma loop_head_crawl:
  "loop_head e cache reports count page_num tasks s \<Longrightarrow>
     crawl e count page_num tasks s = get_records e cache reports"
proof (induction rule: loop_head.induct)
  case loop_start
  show ?case by (simp add: get_records_def)
next
  case (loop_next count page_num tasks s count' page_num' tasks' s')
  have "crawl e count page_num tasks s = crawl e count' page_num' tasks' s'"
    by (subst crawl.simps) (simp add: loop_next.hyps(2))
  with loop_next.IH show ?case by simp
qed

lemma iteration_head:
  assumes "loop_head e cache reports count page_num tasks s"
  shows "iteration e count page_num tasks s =
     (case download_and_analyze_report e url (page_param count) (Suc count)
             (emit [CreateTask (Suc count)] s) of
        (Inl x, s1) \<Rightarrow> if is_ValueError x then Break (emit [TaskDone (Suc count)] s1)
                        else Raise x (emit [TaskDone (Suc count)] s1)
      | (Inr _, s1) \<Rightarrow> Continue (Suc count) count
           (tasks @ [Task (page_param count) (Suc count) True])
           (emit [TaskDone (Suc count)] s1))"
proof -
  from loop_head_tasks_done[OF assms]
  have d: "\<forall>t\<in>set tasks. task_done t" and p: "page_num = count - 1" by auto
  have q: "(if 0 < count then ascii ''page-'' @ str_nat (Suc page_num) else []) = page_param count"
    using p by (auto simp: page_param_def)
  have r: "(if 0 < count then Suc page_num else page_num) = count"
    using p by auto
  show ?thesis unfolding iteration_done[OF d] Let_def q r ..
qed

lemma loop_head_step:
  assumes "loop_head e cache reports count page_num tasks s"
      and "fst (download_and_analyze_report e url (page_param count) (Suc count)
             (emit [CreateTask (Suc count)] s)) = Inr ()"
  shows "loop_head e cache reports (Suc count) count
           (tasks @ [Task (page_param count) (Suc count) True])
           (emit [TaskDone (Suc count)]
              (snd (download_and_analyze_report e url (page_param count) (Suc count)
                 (emit [CreateTask (Suc count)] s))))"
proof (rule loop_next[OF assms(1)])
  show "iteration e count page_num tasks s = Continue (Suc count) count
           (tasks @ [Task (page_param count) (Suc count) True])
           (emit [TaskDone (Suc count)]
              (snd (download_and_analyze_report e url (page_param count) (Suc count)
                 (emit [CreateTask (Suc count)] s))))"
    using assms(2) unfolding iteration_head[OF assms(1)]
    by (cases "download_and_analyze_report e url (page_param count) (Suc count)
             (emit [CreateTask (Suc count)] s)") auto
qed

lemma crawl_break:
  assumes "loop_head e cache reports count page_num tasks s"
      and "download_and_analyze_report e url (page_param count) (Suc count)
             (emit [CreateTask (Suc count)] s) = (Inl ValueError, s1)"
  shows "get_records e cache reports = Some (Inr (records s1), emit [TaskDone (Suc count)] s1)"
proof -
  have "iteration e count page_num tasks s = Break (emit [TaskDone (Suc count)] s1)"
    unfolding iteration_head[OF assms(1)] using assms(2) by (simp add: is_ValueError_def)
  then have "crawl e count page_num tasks s
      = Some (Inr (records (emit [TaskDone (Suc count)] s1)), emit [TaskDone (Suc count)] s1)"
    by (subst crawl.simps) simp
  then show ?thesis unfolding loop_head_crawl[OF assms(1)] by (simp add: emit_def)
qed

section \<open>The page task\<close>

lemma analyze_elements_append:
  "analyze_elements e pre s = (Inr (), s1) \<Longrightarrow>
   analyze_elements e (pre @ rest) s = analyze_elements e rest s1"
  by (induction pre arbitrary: s) (auto split: prod.splits sum.splits)

lemma ensure_report_records:
  "ensure_report e tag path s = (r, s1) \<Longrightarrow> records s1 = records s"
  by (auto simp: ensure_report_def download_xls_def emit_def Let_def
      split: if_splits prod.splits sum.splits option.splits)

lemma analyze_element_absent:
  assumes "find_a el = Some tag" and "tag_contains tag text_to_search"
      and "find_span_text el = Some date"
      and "ensure_report e tag (report_path date) s = (Inr (), s1)"
      and "get_market_price s1 (report_path date) target_row target_col = Inr price"
      and "\<not> truthy price"
  shows "analyze_element e el s =
           (Inl ValueError, s1\<lparr>reports_dir := (reports_dir s1)(report_path date := None)\<rparr>)"
  using assms by (simp add: analyze_element_def extract_and_record_def)

lemma stop_on_falsy_price:
  assumes "loop_head e cache reports count page_num tasks s"
      and "get_html_page e url (page_param count) (Suc count)
             (emit [CreateTask (Suc count)] s) = (Inr data, s1)"
      and "findAll e data = pre @ el # post"
      and "analyze_elements e pre s1 = (Inr (), s2)"
      and "find_a el = Some tag" and "tag_contains tag text_to_search"
      and "find_span_text el = Some date"
      and "ensure_report e tag (report_path date) s2 = (Inr (), s3)"
      and "get_market_price s3 (report_path date) target_row target_col = Inr price"
      and "\<not> truthy price"
  shows "get_records e cache reports =
           Some (Inr (records s2),
                 emit [TaskDone (Suc count)]
                   (s3\<lparr>reports_dir := (reports_dir s3)(report_path date := None)\<rparr>))"
proof -
  let ?sf = "s3\<lparr>reports_dir := (reports_dir s3)(report_path date := None)\<rparr>"
  have "analyze_elements e (pre @ el # post) s1 = (Inl ValueError, ?sf)"
    using analyze_elements_append[OF assms(4)] analyze_element_absent[OF assms(5-10)]
    by simp
  then have "download_and_analyze_report e url (page_param count) (Suc count)
               (emit [CreateTask (Suc count)] s) = (Inl ValueError, ?sf)"
    using assms(2,3) by (simp add: download_and_analyze_report_def)
  from crawl_break[OF assms(1) this] ensure_report_records[OF assms(8)]
  show ?thesis by simp
qed

lemma pair_fst_snd: "fst p = a \<Longrightarrow> p = (a, snd p)"
  by (cases p) simp

text \<open>
  C1. Whenever, at any head of the loop of a run, the task of the next page reaches a
  block it takes up whose extraction yields a falsy value (no value), the run deletes
  that block's spreadsheet file and \<open>get_records\<close> returns, as its result and not as an
  exception, the records collected up to that point; the final state is the state at that
  block with the file removed and the task marked done: no later block is looked at and
  no further task is created.
\<close>

theorem crawl_stops_at_first_absent:
  assumes "loop_head e cache reports count page_num tasks s"
      and "get_html_page e url (page_param count) (Suc count)
             (emit [CreateTask (Suc count)] s) = (Inr data, s1)"
      and "findAll e data = pre @ el # post"
      and "analyze_elements e pre s1 = (Inr (), s2)"
      and "find_a el = Some tag" and "tag_contains tag text_to_search"
      and "find_span_text el = Some date"
      and "ensure_report e tag (report_path date) s2 = (Inr (), s3)"
      and "get_market_price s3 (report_path date) target_row target_col = Inr price"
      and "\<not> truthy price"
  shows "get_records e cache reports =
           Some (Inr (records s2),
                 emit [TaskDone (Suc count)]
                   (s3\<lparr>reports_dir := (reports_dir s3)(report_path date := None)\<rparr>))"
proof -
  let ?sf = "s3\<lparr>reports_dir := (reports_dir s3)(report_path date := None)\<rparr>"
  have element: "analyze_element e el s2 = (Inl ValueError, ?sf)"
    using assms(5-10) by (simp add: analyze_element_def extract_and_record_def)
  have "analyze_elements e (pre @ el # post) s1 = analyze_elements e (el # post) s2"
    using assms(4) by (rule analyze_elements_append)
  with element have "analyze_elements e (pre @ el # post) s1 = (Inl ValueError, ?sf)"
    by simp
  with assms(2,3) have task: "download_and_analyze_report e url (page_param count) (Suc count)
      (emit [CreateTask (Suc count)] s) = (Inl ValueError, ?sf)"
    by (simp add: download_and_analyze_report_def)
  have "iteration e count page_num tasks s = Break (emit [TaskDone (Suc count)] ?sf)"
    unfolding iteration_head[OF assms(1)] using task by (simp add: is_ValueError_def)
  then have "crawl e count page_num tasks s =
      Some (Inr (records (emit [TaskDone (Suc count)] ?sf)), emit [TaskDone (Suc count)] ?sf)"
    by (subst crawl.simps) simp
  moreover have "records (emit [TaskDone (Suc count)] ?sf) = records s2"
    using ensure_report_records[OF assms(8)] by (simp add: emit_def)
  ultimately show ?thesis
    unfolding loop_head_crawl[OF assms(1)] by simp
qed

text \<open>
  The three-page scenario: two records, and the third page's spreadsheet is deleted.
\<close>

theorem crawl_stops_at_first_absent_witness:
  "map_option fst (get_records three_pages Map.empty Map.empty) =
     Some (Inr [\<lparr>r_date = DateTime 2023 2 3, r_price = PFloat 42.5,
                  r_path = report_path (ascii ''03.02.2023'')\<rparr>,
                \<lparr>r_date = DateTime 2023 2 2, r_price = PFloat 40,
                  r_path = report_path (ascii ''02.02.2023'')\<rparr>])
   \<and> map_option (\<lambda>x. reports_dir (snd x) (report_path (ascii ''01.02.2023'')))
        (get_records three_pages Map.empty Map.empty) = Some None"
proof -
  define s0 where "s0 = init_state Map.empty Map.empty"
  define t1 where "t1 = emit [TaskDone (Suc 0)]
    (snd (download_and_analyze_report three_pages url (page_param 0) (Suc 0)
            (emit [CreateTask (Suc 0)] s0)))"
  define t2 where "t2 = emit [TaskDone (Suc (Suc 0))]
    (snd (download_and_analyze_report three_pages url (page_param (Suc 0)) (Suc (Suc 0))
            (emit [CreateTask (Suc (Suc 0))] t1)))"
  define u1 where "u1 = snd (get_html_page three_pages url (page_param (Suc (Suc 0)))
    (Suc (Suc (Suc 0))) (emit [CreateTask (Suc (Suc (Suc 0)))] t2))"
  define el where "el = bulletin (ascii ''/f3.xls'') (ascii ''01.02.2023'')"
  define tag where "tag = \<lparr>href = ascii ''/f3.xls'', contents = [NavigableString text_to_search]\<rparr>"
  define u3 where "u3 = snd (ensure_report three_pages tag (report_path (ascii ''01.02.2023'')) u1)"
  note defs = s0_def t1_def t2_def u1_def u3_def el_def tag_def three_pages_def run_defs
  have h0: "loop_head three_pages Map.empty Map.empty 0 0 [] s0"
    unfolding s0_def by (rule loop_start)
  have "fst (download_and_analyze_report three_pages url (page_param 0) (Suc 0)
            (emit [CreateTask (Suc 0)] s0)) = Inr ()"
    by (simp add: defs)
  from loop_head_step[OF h0 this]
  have h1: "loop_head three_pages Map.empty Map.empty (Suc 0) 0
     ([] @ [Task (page_param 0) (Suc 0) True]) t1"
    unfolding t1_def .
  have "fst (download_and_analyze_report three_pages url (page_param (Suc 0)) (Suc (Suc 0))
            (emit [CreateTask (Suc (Suc 0))] t1)) = Inr ()"
    by (simp add: defs)
  from loop_head_step[OF h1 this]
  have h2: "loop_head three_pages Map.empty Map.empty (Suc (Suc 0)) (Suc 0)
     (([] @ [Task (page_param 0) (Suc 0) True]) @ [Task (page_param (Suc 0)) (Suc (Suc 0)) True]) t2"
    unfolding t2_def .
  have a: "get_html_page three_pages url (page_param (Suc (Suc 0))) (Suc (Suc (Suc 0)))
      (emit [CreateTask (Suc (Suc (Suc 0)))] t2) = (Inr (ascii ''three''), u1)"
    unfolding u1_def by (rule pair_fst_snd) (simp add: defs)
  have b: "findAll three_pages (ascii ''three'') = [] @ el # []"
    by (simp add: defs)
  have c: "analyze_elements three_pages [] u1 = (Inr (), u1)" by simp
  have d: "find_a el = Some tag" "tag_contains tag text_to_search"
    "find_span_text el = Some (ascii ''01.02.2023'')"
    by (simp_all add: el_def tag_def bulletin_def tag_contains_def)
  have f: "ensure_report three_pages tag (report_path (ascii ''01.02.2023'')) u1 = (Inr (), u3)"
    unfolding u3_def by (rule pair_fst_snd) (simp add: defs)
  have g: "get_market_price u3 (report_path (ascii ''01.02.2023'')) target_row target_col
      = Inr (PStr [])"
    by (simp add: defs)
  have i: "\<not> truthy (PStr [])" by simp
  have r: "records u1 = [\<lparr>r_date = DateTime 2023 2 3, r_price = PFloat 42.5,
                  r_path = report_path (ascii ''03.02.2023'')\<rparr>,
                \<lparr>r_date = DateTime 2023 2 2, r_price = PFloat 40,
                  r_path = report_path (ascii ''02.02.2023'')\<rparr>]"
    by (simp add: defs)
  from crawl_stops_at_first_absent[OF h2 a b c d f g i] r
  show ?thesis by (simp add: emit_def)
qed

lemma falsy_values: "\<not> truthy v \<longleftrightarrow> v = PStr [] \<or> v = PFloat 0 \<or> v = PInt 0"
  by (cases v) auto

text \<open>
  C10. The test on the price is plain falsiness: when the cell where the last matching
  row and column cross holds the number 0.0, the integer 0 or the empty string, the file
  is deleted and the run ends with the records collected so far, exactly as when nothing
  matches.
\<close>

theorem falsy_cell_stops_crawl:
  assumes "loop_head e cache reports count page_num tasks s"
      and "get_html_page e url (page_param count) (Suc count)
             (emit [CreateTask (Suc count)] s) = (Inr data, s1)"
      and "findAll e data = pre @ el # post"
      and "analyze_elements e pre s1 = (Inr (), s2)"
      and "find_a el = Some tag" and "tag_contains tag text_to_search"
      and "find_span_text el = Some date"
      and "ensure_report e tag (report_path date) s2 = (Inr (), s3)"
      and "reports_dir s3 (report_path date) = Some (Workbook sh)"
      and "last_match (col_has sh target_col) (ncols sh) c"
      and "last_match (row_has sh target_row) (nrows sh) r"
      and "cell_value sh r c = PFloat 0 \<or> cell_value sh r c = PInt 0 \<or> cell_value sh r c = PStr []"
  shows "get_records e cache reports =
           Some (Inr (records s2),
                 emit [TaskDone (Suc count)]
                   (s3\<lparr>reports_dir := (reports_dir s3)(report_path date := None)\<rparr>))"
proof -
  have p: "get_market_price s3 (report_path date) target_row target_col = Inr (cell_value sh r c)"
    using assms(9) scan_returns_crossing[OF assms(10,11)] by (simp add: get_market_price_def)
  have f: "\<not> truthy (cell_value sh r c)"
    using assms(12) by (auto simp: falsy_values)
  from stop_on_falsy_price[OF assms(1-8) p f] show ?thesis .
qed

text \<open>A bulletin that quotes the price 0.0 ends the run and loses its file.\<close>

theorem falsy_cell_stops_crawl_witness:
  "map_option fst (get_records zero_price_site Map.empty Map.empty) = Some (Inr [])
   \<and> map_option (\<lambda>x. reports_dir (snd x) (report_path (ascii ''03.02.2023'')))
        (get_records zero_price_site Map.empty Map.empty) = Some None"
proof -
  define s0 where "s0 = init_state Map.empty Map.empty"
  define u1 where "u1 = snd (get_html_page zero_price_site url (page_param 0) (Suc 0)
     (emit [CreateTask (Suc 0)] s0))"
  define el where "el = bulletin (ascii ''/f1.xls'') (ascii ''03.02.2023'')"
  define tag where "tag = \<lparr>href = ascii ''/f1.xls'', contents = [NavigableString text_to_search]\<rparr>"
  define u3 where "u3 = snd (ensure_report zero_price_site tag (report_path (ascii ''03.02.2023'')) u1)"
  note defs = s0_def u1_def u3_def el_def tag_def zero_price_site_def run_defs
  have h0: "loop_head zero_price_site Map.empty Map.empty 0 0 [] s0"
    unfolding s0_def by (rule loop_start)
  have a: "get_html_page zero_price_site url (page_param 0) (Suc 0)
      (emit [CreateTask (Suc 0)] s0) = (Inr (ascii ''one''), u1)"
    unfolding u1_def by (rule pair_fst_snd) (simp add: defs)
  have b: "findAll zero_price_site (ascii ''one'') = [] @ el # []"
    by (simp add: defs)
  have c: "analyze_elements zero_price_site [] u1 = (Inr (), u1)" by simp
  have d: "find_a el = Some tag" "tag_contains tag text_to_search"
    "find_span_text el = Some (ascii ''03.02.2023'')"
    by (simp_all add: el_def tag_def bulletin_def tag_contains_def)
  have f: "ensure_report zero_price_site tag (report_path (ascii ''03.02.2023'')) u1 = (Inr (), u3)"
    unfolding u3_def by (rule pair_fst_snd) (simp add: defs)
  have g: "reports_dir u3 (report_path (ascii ''03.02.2023'')) = Some (Workbook (priced_sheet (PFloat 0)))"
    by (simp add: defs)
  have i: "last_match (col_has (priced_sheet (PFloat 0)) target_col) (ncols (priced_sheet (PFloat 0))) 1"
    "last_match (row_has (priced_sheet (PFloat 0)) target_row) (nrows (priced_sheet (PFloat 0))) 1"
    by (simp_all add: sheet_defs)
  have j: "cell_value (priced_sheet (PFloat 0)) 1 1 = PFloat 0 \<or>
    cell_value (priced_sheet (PFloat 0)) 1 1 = PInt 0 \<or> cell_value (priced_sheet (PFloat 0)) 1 1 = PStr []"
    by (simp add: sheet_defs)
  have r: "records u1 = []"
    by (simp add: defs)
  from falsy_cell_stops_crawl[OF h0 a b c d f g i j] r
  show ?thesis by (simp add: emit_def)
qed

section \<open>Task events\<close>

lemma task_events_append [simp]: "task_events (xs @ ys) = task_events xs @ task_events ys"
  by (simp add: task_events_def)

lemma get_html_page_task_events:
  "get_html_page e u p c s = (r, s') \<Longrightarrow> task_events (trace s') = task_events (trace s)"
  by (auto simp: get_html_page_def emit_def Let_def task_events_def
      split: option.splits prod.splits if_splits sum.splits)

lemma ensure_report_task_events:
  "ensure_report e tag path s = (r, s') \<Longrightarrow> task_events (trace s') = task_events (trace s)"
  by (auto simp: ensure_report_def download_xls_def emit_def Let_def task_events_def
      split: prod.splits if_splits sum.splits option.splits)

lemma extract_and_record_trace:
  "extract_and_record e date path s = (r, s') \<Longrightarrow> trace s' = trace s"
  by (auto simp: extract_and_record_def split: sum.splits if_splits option.splits)

lemma analyze_element_task_events:
  "analyze_element e el s = (r, s') \<Longrightarrow> task_events (trace s') = task_events (trace s)"
  by (auto simp: analyze_element_def split: option.splits if_splits prod.splits sum.splits
      dest!: ensure_report_task_events extract_and_record_trace)

lemma analyze_elements_task_events:
  "analyze_elements e els s = (r, s') \<Longrightarrow> task_events (trace s') = task_events (trace s)"
proof (induction els arbitrary: s)
  case Nil
  then show ?case by simp
next
  case (Cons el els)
  obtain r1 s1 where a: "analyze_element e el s = (r1, s1)" by (cases "analyze_element e el s")
  show ?case
  proof (cases r1)
    case (Inl x)
    with Cons.prems a analyze_element_task_events[OF a] show ?thesis by simp
  next
    case (Inr u)
    with Cons.prems a have "analyze_elements e els s1 = (r, s')" by simp
    from Cons.IH[OF this] analyze_element_task_events[OF a] show ?thesis by simp
  qed
qed

lemma task_task_events:
  "download_and_analyze_report e u p c s = (r, s') \<Longrightarrow>
     task_events (trace s') = task_events (trace s)"
  by (auto simp: download_and_analyze_report_def split: prod.splits sum.splits
      dest!: get_html_page_task_events analyze_elements_task_events)

lemma loop_head_task_events:
  "loop_head e cache reports count page_num tasks s \<Longrightarrow>
     task_events (trace s) = concat (map (\<lambda>n. [CreateTask n, TaskDone n]) [1..<Suc count])"
proof (induction rule: loop_head.induct)
  case loop_start
  show ?case by (simp add: init_state_def task_events_def)
next
  case (loop_next count page_num tasks s count' page_num' tasks' s')
  obtain r s1 where d: "download_and_analyze_report e url (page_param count) (Suc count)
             (emit [CreateTask (Suc count)] s) = (r, s1)"
    by (cases "download_and_analyze_report e url (page_param count) (Suc count)
             (emit [CreateTask (Suc count)] s)")
  from loop_next.hyps(2) d have c: "count' = Suc count" and s': "s' = emit [TaskDone (Suc count)] s1"
    unfolding iteration_head[OF loop_next.hyps(1)] by (auto split: sum.splits if_splits)
  have "task_events (trace s1) = task_events (trace s) @ [CreateTask (Suc count)]"
    using task_task_events[OF d] by (simp add: emit_def task_events_def)
  then show ?case using loop_next.IH c s' by (simp add: emit_def task_events_def)
qed

text \<open>
  C8 (amended). At every head of the loop, that is whenever the next page task is about
  to be created, the tasks of all earlier pages exist and every one of them has finished;
  in the trace each task is created only after the one before it is done. Page tasks
  never overlap.
\<close>

theorem page_tasks_run_one_after_another:
  "loop_head e cache reports count page_num tasks s \<Longrightarrow>
     map task_count tasks = [1..<Suc count] \<and> list_all task_done tasks
     \<and> task_events (trace s) = concat (map (\<lambda>n. [CreateTask n, TaskDone n]) [1..<Suc count])"
  using loop_head_tasks_done[of e cache reports count page_num tasks s]
    loop_head_task_events[of e cache reports count page_num tasks s]
  by (simp add: list_all_iff)

text \<open>The head of the loop after the first page of the three-page site.\<close>

theorem page_tasks_run_one_after_another_witness:
  "\<exists>s. loop_head three_pages Map.empty Map.empty 1 0 [Task [] 1 True] s
       \<and> task_events (trace s) = [CreateTask 1, TaskDone 1]"
proof -
  define s0 where "s0 = init_state Map.empty Map.empty"
  define t1 where "t1 = emit [TaskDone (Suc 0)]
    (snd (download_and_analyze_report three_pages url (page_param 0) (Suc 0)
            (emit [CreateTask (Suc 0)] s0)))"
  have h0: "loop_head three_pages Map.empty Map.empty 0 0 [] s0"
    unfolding s0_def by (rule loop_start)
  have "fst (download_and_analyze_report three_pages url (page_param 0) (Suc 0)
            (emit [CreateTask (Suc 0)] s0)) = Inr ()"
    by (simp add: s0_def three_pages_def run_defs)
  from loop_head_step[OF h0 this]
  have h1: "loop_head three_pages Map.empty Map.empty 1 0 [Task [] 1 True] t1"
    unfolding t1_def by (simp add: page_param_def)
  from page_tasks_run_one_after_another[OF h1] h1 show ?thesis
    by (intro exI[of _ t1]) simp
qed

text \<open>
  The pipelining claim as stated fails: in the run over the three-page site the task of page 2 is created
  after the task of page 1 is done, and the task of page 3 after that of page 2.
\<close>

theorem second_task_created_after_first_done:
  "map_option (\<lambda>x. task_events (trace (snd x))) (get_records three_pages Map.empty Map.empty)
     = Some [CreateTask 1, TaskDone 1, CreateTask 2, TaskDone 2, CreateTask 3, TaskDone 3]"
  by (simp add: three_pages_def run_defs task_events_def)

text \<open>
  C3, at the failing input: the run over the three-page site sends six requests (three
  pages, three spreadsheets); each acquires a semaphore object of its own, six objects in
  all, so no slot is ever shared between two requests.
\<close>

theorem every_request_has_its_own_semaphore:
  "map_option (\<lambda>x. (acquired (trace (snd x)), semaphores (snd x)))
     (get_records three_pages Map.empty Map.empty) = Some ([0, 1, 2, 3, 4, 5], 6)"
  by (simp add: three_pages_def run_defs acquired_def)

text \<open>
  C7, at the failing input: one page, one bulletin with a price of 42.5 and the label
  \<open>03-02-2023\<close>, a plain file name that \<open>strptime\<close> rejects. No extraction is absent, no
  request fails and no block lacks its anchor or label, yet the loop stops:
  \<open>get_records\<close> returns the empty list, and the spreadsheet stays on disk with its price.
\<close>

theorem unparsable_date_ends_crawl:
  "map_option (\<lambda>x. (fst x,
        get_market_price (snd x) (report_path (ascii ''03-02-2023'')) target_row target_col))
     (get_records bad_date_site Map.empty Map.empty) = Some (Inr [], Inr (PFloat 42.5))"
  by (simp add: bad_date_site_def run_defs split_on.simps)

section \<open>The page cache\<close>

lemma universal_newlines_no_cr: "13 \<notin> set data \<Longrightarrow> universal_newlines data = data"
  by (induction data rule: universal_newlines.induct) auto

lemma get_html_page_cached:
  "cache_dir s count = Some raw \<Longrightarrow>
     get_html_page e u param count s =
       (Inr (universal_newlines raw), emit [LoadFromCache count] s)"
  by (simp add: get_html_page_def)

lemma universal_newlines_result: "13 \<notin> set (universal_newlines data)"
  by (induction data rule: universal_newlines.induct) auto

lemma universal_newlines_idem:
  "universal_newlines (universal_newlines data) = universal_newlines data"
  by (rule universal_newlines_no_cr) (rule universal_newlines_result)

lemma get_html_page_fetched:
  assumes "cache_dir s count = None"
      and "get_html_page e u param count s = (Inr data, s1)"
  shows "cache_dir s1 count = Some data"
proof -
  let ?params = "if param \<noteq> [] then Some param else None"
  from assms obtain status where g: "get_page e u ?params = Inr (status, Inr data)"
    and "status = 200"
    by (auto simp: get_html_page_def Let_def split: sum.splits prod.splits if_splits)
  with assms show ?thesis
    by (auto simp: get_html_page_def Let_def emit_def)
qed

lemma get_html_page_leaves_cache:
  assumes "get_html_page e u param count s = (Inr data, s1)"
  shows "\<exists>raw. cache_dir s1 count = Some raw \<and> universal_newlines raw = universal_newlines data"
proof (cases "cache_dir s count")
  case None
  from get_html_page_fetched[OF None assms] show ?thesis by simp
next
  case (Some raw)
  from assms have "data = universal_newlines raw" and "s1 = emit [LoadFromCache count] s"
    unfolding get_html_page_cached[OF Some] by simp_all
  with Some have "cache_dir s1 count = Some raw"
    and "universal_newlines raw = universal_newlines data"
    by (simp_all add: emit_def universal_newlines_idem)
  then show ?thesis by blast
qed

text \<open>
  C4 (amended). Once a request for page \<open>count\<close> has returned, every later request for
  the same \<open>count\<close>, with any url and parameter and in any state whose cache file for
  \<open>count\<close> is the same, sends nothing: it only reads the file (its sole effect is the
  \<open>LoadFromCache\<close> event) and returns the content of the first request with its line
  endings normalised, which is the same content whenever that has no carriage return.
  A request that finds no cache file writes what it fetched to the file.
\<close>

theorem cached_page_is_read_back:
  assumes "get_html_page e u param count s = (Inr data, s1)"
      and "cache_dir s2 count = cache_dir s1 count"
  shows "get_html_page e u' param' count s2 =
           (Inr (universal_newlines data), emit [LoadFromCache count] s2)
         \<and> (cache_dir s count = None \<longrightarrow> cache_dir s1 count = Some data)
         \<and> (13 \<notin> set data \<longrightarrow> universal_newlines data = data)"
proof (intro conjI impI)
  from get_html_page_leaves_cache[OF assms(1)] obtain raw where
    r: "cache_dir s1 count = Some raw" "universal_newlines raw = universal_newlines data"
    by blast
  from r(1) assms(2) have "cache_dir s2 count = Some raw" by simp
  from get_html_page_cached[OF this, of e u' param'] r(2)
  show "get_html_page e u' param' count s2 =
           (Inr (universal_newlines data), emit [LoadFromCache count] s2)"
    by simp
next
  assume "cache_dir s count = None"
  then show "cache_dir s1 count = Some data" using assms(1) by (rule get_html_page_fetched)
next
  assume "13 \<notin> set data"
  then show "universal_newlines data = data" by (rule universal_newlines_no_cr)
qed

text \<open>The first page of the three-page site, requested twice.\<close>

theorem cached_page_is_read_back_witness:
  "fst (get_html_page three_pages url [] 1 (init_state Map.empty Map.empty))
     = Inr (ascii ''one'')
   \<and> get_html_page three_pages url [] 1
       (snd (get_html_page three_pages url [] 1 (init_state Map.empty Map.empty)))
     = (Inr (ascii ''one''),
        emit [LoadFromCache 1]
          (snd (get_html_page three_pages url [] 1 (init_state Map.empty Map.empty))))"
proof -
  define s1 where "s1 = snd (get_html_page three_pages url [] 1 (init_state Map.empty Map.empty))"
  have f: "fst (get_html_page three_pages url [] 1 (init_state Map.empty Map.empty))
     = Inr (ascii ''one'')"
    by (simp add: three_pages_def run_defs)
  have a: "get_html_page three_pages url [] 1 (init_state Map.empty Map.empty)
     = (Inr (ascii ''one''), s1)"
    unfolding s1_def using f by (rule pair_fst_snd)
  have n: "universal_newlines (ascii ''one'') = ascii ''one''"
    by (simp add: ascii_def)
  from cached_page_is_read_back[OF a refl, of url "[]"] f n show ?thesis
    unfolding s1_def by simp
qed

text \<open>
  Identical content as stated fails on a page with a \<open>\r\n\<close> line ending: the fetch returns the text as
  the server sent it, the second request returns it with \<open>\n\<close> alone.
\<close>

theorem cached_page_differs_after_crlf:
  "fst (get_html_page crlf_site url [] 1 (init_state Map.empty Map.empty))
     = Inr [97, 13, 10, 98]
   \<and> fst (get_html_page crlf_site url [] 1
       (snd (get_html_page crlf_site url [] 1 (init_state Map.empty Map.empty))))
     = Inr [97, 10, 98]"
  by (simp add: crlf_site_def run_defs)

section \<open>The blocks taken up\<close>

lemma analyze_element_skip:
  "find_a el \<noteq> None \<Longrightarrow> \<not> is_bulletin el \<Longrightarrow> analyze_element e el s = (Inr (), s)"
  by (auto simp: analyze_element_def is_bulletin_def split: option.splits)

lemma analyze_elements_filter:
  "\<forall>el\<in>set els. find_a el \<noteq> None \<Longrightarrow>
     analyze_elements e els s = analyze_elements e (filter is_bulletin els) s"
proof (induction els arbitrary: s)
  case Nil
  show ?case by simp
next
  case (Cons el els)
  show ?case
  proof (cases "is_bulletin el")
    case True
    with Cons show ?thesis by (auto split: prod.splits sum.splits)
  next
    case False
    with Cons analyze_element_skip[of el e s] show ?thesis by simp
  qed
qed

lemma str_contains_middle: "str_contains (pre @ x @ post) x"
  unfolding str_contains_def
  by (rule bexI[of _ "length pre"]) auto

lemma concat_split: "x \<in> set xs \<Longrightarrow> \<exists>pre post. concat xs = pre @ x @ post"
proof (induction xs)
  case Nil
  then show ?case by simp
next
  case (Cons y ys)
  show ?case
  proof (cases "x = y")
    case True
    then have "concat (y # ys) = [] @ x @ concat ys" by simp
    then show ?thesis by blast
  next
    case False
    with Cons obtain pre post where "concat ys = pre @ x @ post" by auto
    then have "concat (y # ys) = (y @ pre) @ x @ post" by simp
    then show ?thesis by blast
  qed
qed

lemma tag_contains_text:
  assumes "tag_contains tag x"
  shows "str_contains (anchor_text tag) x"
proof -
  from assms have "x \<in> set (map node_text (contents tag))"
    unfolding tag_contains_def by force
  from concat_split[OF this] obtain pre post where
    "concat (map node_text (contents tag)) = pre @ x @ post" by blast
  then show ?thesis by (simp add: anchor_text_def str_contains_middle)
qed

lemma analyze_element_entry:
  assumes "find_a el = Some tag" and "tag_contains tag text_to_search"
      and "find_span_text el = Some date"
      and "ensure_report e tag (report_path date) s1 = (Inr (), s2)"
      and "get_market_price s2 (report_path date) target_row target_col = Inr price"
      and "truthy price" and "strptime e date = Some d"
  shows "analyze_element e el s1 =
           (Inr (), s2\<lparr>records := records s2 @
                         [\<lparr>r_date = d, r_price = price, r_path = report_path date\<rparr>]\<rparr>)"
  using assms by (simp add: analyze_element_def extract_and_record_def)

text \<open>
  C9 (amended). On a page whose blocks all have an anchor, the loop does exactly what it
  would do on the blocks that pass the test alone; a block that fails the test changes
  nothing and raises nothing. The test \<open>text_to_search in tag\<close> holds exactly when a
  direct child of the anchor is a string equal to the phrase; such an anchor's text
  contains the phrase, but an anchor whose text merely contains it does not pass. A block
  that passes is processed into an entry: once its spreadsheet is on disk (downloaded if
  it was not), its price found truthy and its label read as a date, the state is the one
  after the download with exactly one record appended, made of that date, that price and
  the file's path.
\<close>

theorem blocks_with_phrase_child_are_processed:
  assumes "\<forall>el\<in>set els. find_a el \<noteq> None"
  shows "analyze_elements e els s = analyze_elements e (filter is_bulletin els) s
         \<and> (\<forall>el\<in>set els. \<not> is_bulletin el \<longrightarrow> (\<forall>s'. analyze_element e el s' = (Inr (), s')))
         \<and> (\<forall>el\<in>set els. \<forall>tag. find_a el = Some tag \<longrightarrow>
               (is_bulletin el \<longleftrightarrow> NavigableString text_to_search \<in> set (contents tag))
               \<and> (is_bulletin el \<longrightarrow> str_contains (anchor_text tag) text_to_search))
         \<and> (\<forall>el\<in>set els. is_bulletin el \<longrightarrow>
               (\<forall>tag date s1 s2 price d.
                  find_a el = Some tag \<longrightarrow> find_span_text el = Some date \<longrightarrow>
                  ensure_report e tag (report_path date) s1 = (Inr (), s2) \<longrightarrow>
                  get_market_price s2 (report_path date) target_row target_col = Inr price \<longrightarrow>
                  truthy price \<longrightarrow> strptime e date = Some d \<longrightarrow>
                  analyze_element e el s1 =
                    (Inr (), s2\<lparr>records := records s2 @
                       [\<lparr>r_date = d, r_price = price, r_path = report_path date\<rparr>]\<rparr>)))"
proof (intro conjI ballI allI impI)
  show "analyze_elements e els s = analyze_elements e (filter is_bulletin els) s"
    using assms by (rule analyze_elements_filter)
next
  fix el :: div_elem and s' assume "el \<in> set els" "\<not> is_bulletin el"
  with assms show "analyze_element e el s' = (Inr (), s')"
    by (intro analyze_element_skip) auto
next
  fix el :: div_elem and tag assume "find_a el = Some tag"
  then show "is_bulletin el \<longleftrightarrow> NavigableString text_to_search \<in> set (contents tag)"
    by (simp add: is_bulletin_def tag_contains_def)
next
  fix el :: div_elem and tag assume "find_a el = Some tag" "is_bulletin el"
  then have "tag_contains tag text_to_search" by (simp add: is_bulletin_def)
  then show "str_contains (anchor_text tag) text_to_search" by (rule tag_contains_text)
next
  fix el :: div_elem and tag date s1 s2 price d
  assume b: "is_bulletin el" and a: "find_a el = Some tag"
    and rest: "find_span_text el = Some date"
      "ensure_report e tag (report_path date) s1 = (Inr (), s2)"
      "get_market_price s2 (report_path date) target_row target_col = Inr price"
      "truthy price" "strptime e date = Some d"
  from a b have "tag_contains tag text_to_search" by (simp add: is_bulletin_def)
  from analyze_element_entry[OF a this rest]
  show "analyze_element e el s1 =
          (Inr (), s2\<lparr>records := records s2 @
             [\<lparr>r_date = d, r_price = price, r_path = report_path date\<rparr>]\<rparr>)" .
qed

text \<open>
  Three blocks, of which only the second passes the test: it alone is processed, into
  one record.
\<close>

theorem blocks_with_phrase_child_are_processed_witness:
  "fst (analyze_elements three_pages
          [other_block, bulletin (ascii ''/f1.xls'') (ascii ''03.02.2023''), dated_title_block]
          (init_state Map.empty Map.empty)) = Inr ()
   \<and> records (snd (analyze_elements three_pages
          [other_block, bulletin (ascii ''/f1.xls'') (ascii ''03.02.2023''), dated_title_block]
          (init_state Map.empty Map.empty)))
       = [\<lparr>r_date = DateTime 2023 2 3, r_price = PFloat 42.5,
            r_path = report_path (ascii ''03.02.2023'')\<rparr>]
   \<and> reports_dir (snd (analyze_elements three_pages
          [other_block, bulletin (ascii ''/f1.xls'') (ascii ''03.02.2023''), dated_title_block]
          (init_state Map.empty Map.empty))) (report_path (ascii ''03.02.2023''))
       = Some (Workbook (priced_sheet (PFloat 42.5)))"
proof -
  define s0 where "s0 = init_state Map.empty Map.empty"
  define el where "el = bulletin (ascii ''/f1.xls'') (ascii ''03.02.2023'')"
  define tag where "tag = \<lparr>href = ascii ''/f1.xls'', contents = [NavigableString text_to_search]\<rparr>"
  define s2 where "s2 = snd (ensure_report three_pages tag (report_path (ascii ''03.02.2023'')) s0)"
  let ?els = "[other_block, el, dated_title_block]"
  note defs = s0_def el_def tag_def s2_def three_pages_def run_defs
  have a: "\<forall>x\<in>set ?els. find_a x \<noteq> None"
    by (simp add: other_block_def dated_title_block_def el_def bulletin_def)
  have b: "filter is_bulletin ?els = [el]"
    by (simp add: other_block_def dated_title_block_def dated_title_def is_bulletin_def
        tag_contains_def text_to_search_def ascii_def el_def bulletin_def)
  note T = blocks_with_phrase_child_are_processed[OF a, of three_pages s0]
  from T b have 1: "analyze_elements three_pages ?els s0 = analyze_elements three_pages [el] s0"
    by simp
  have m: "el \<in> set ?els" by simp
  have ib: "is_bulletin el" by (simp add: el_def bulletin_def is_bulletin_def tag_contains_def)
  have fa: "find_a el = Some tag" and fs: "find_span_text el = Some (ascii ''03.02.2023'')"
    by (simp_all add: el_def tag_def bulletin_def)
  have en: "ensure_report three_pages tag (report_path (ascii ''03.02.2023'')) s0 = (Inr (), s2)"
    unfolding s2_def by (rule pair_fst_snd) (simp add: defs)
  have gm: "get_market_price s2 (report_path (ascii ''03.02.2023'')) target_row target_col
      = Inr (PFloat 42.5)"
    by (simp add: defs)
  have tr: "truthy (PFloat 42.5)" by simp
  have sp: "strptime three_pages (ascii ''03.02.2023'') = Some (DateTime 2023 2 3)"
    by (simp add: defs split_on.simps)
  from T[THEN conjunct2, THEN conjunct2, THEN conjunct2, rule_format, OF m ib fa fs en gm tr sp]
  have 2: "analyze_element three_pages el s0 =
      (Inr (), s2\<lparr>records := records s2 @
         [\<lparr>r_date = DateTime 2023 2 3, r_price = PFloat 42.5,
           r_path = report_path (ascii ''03.02.2023'')\<rparr>]\<rparr>)" .
  have r: "records s2 = []" and f: "reports_dir s2 (report_path (ascii ''03.02.2023''))
      = Some (Workbook (priced_sheet (PFloat 42.5)))"
    by (simp_all add: defs)
  from 1 2 r f show ?thesis
    unfolding s0_def el_def by simp
qed

text \<open>
  Filtering by containment as stated fails: the anchor text of this block contains the phrase (followed by a
  date, in the same string), and the block is skipped.
\<close>

theorem block_with_phrase_in_longer_text_is_skipped:
  "find_a dated_title_block = Some dated_title
   \<and> str_contains (anchor_text dated_title) text_to_search
   \<and> analyze_element three_pages dated_title_block (init_state Map.empty Map.empty)
       = (Inr (), init_state Map.empty Map.empty)"
proof -
  have "anchor_text dated_title = [] @ text_to_search @ ascii '' 03.02.2023''"
    by (simp add: anchor_text_def dated_title_def)
  then have "str_contains (anchor_text dated_title) text_to_search"
    using str_contains_middle[of "[]" text_to_search "ascii '' 03.02.2023''"] by simp
  moreover have "analyze_element three_pages dated_title_block (init_state Map.empty Map.empty)
       = (Inr (), init_state Map.empty Map.empty)"
    by (simp add: analyze_element_def dated_title_block_def dated_title_def tag_contains_def
        text_to_search_def ascii_def)
  ultimately show ?thesis by (simp add: dated_title_block_def)
qed

section \<open>The reports folder\<close>

lemma get_market_price_same_files:
  "reports_dir s' = reports_dir s \<Longrightarrow> get_market_price s' = get_market_price s"
  by (intro ext) (simp add: get_market_price_def)

lemma keeps_refl: "cache_inv s \<Longrightarrow> keeps s s"
  by (simp add: keeps_def)

lemma keeps_trans: "keeps s s' \<Longrightarrow> keeps s' s'' \<Longrightarrow> keeps s s''"
  by (simp add: keeps_def)

lemma cache_inv_same_files:
  assumes "cache_inv s" and "reports_dir s' = reports_dir s" and "records s' = records s"
  shows "cache_inv s'"
  using assms get_market_price_same_files[OF assms(2)] by (simp add: cache_inv_def)

lemma keeps_same_files:
  assumes "keeps s0 s" and "reports_dir s' = reports_dir s" and "records s' = records s"
  shows "keeps s0 s'"
  using assms cache_inv_same_files[OF _ assms(2,3)] by (simp add: keeps_def)

lemma keeps_emit: "keeps s0 s \<Longrightarrow> keeps s0 (emit evs s)"
  by (rule keeps_same_files) (simp_all add: emit_def)

lemma get_html_page_files:
  "get_html_page e u param count s = (r, s1) \<Longrightarrow>
     reports_dir s1 = reports_dir s \<and> records s1 = records s"
  by (auto simp: get_html_page_def Let_def emit_def
      split: option.splits if_splits sum.splits prod.splits)

lemma download_xls_effect:
  assumes "download_xls e link path s = (r, s1)"
  shows "records s1 = records s \<and>
         ((\<exists>x. r = Inl x) \<and> reports_dir s1 = reports_dir s
          \<or> r = Inr () \<and> (\<exists>data. reports_dir s1 = (reports_dir s)(path \<mapsto> data)))"
  using assms
  by (auto simp: download_xls_def Let_def emit_def
      split: sum.splits prod.splits if_splits option.splits)

lemma record_path_exists:
  assumes "cache_inv s" and "r \<in> set (records s)"
  shows "reports_dir s (r_path r) \<noteq> None"
proof
  assume "reports_dir s (r_path r) = None"
  then have "get_market_price s (r_path r) target_row target_col = Inl FileNotFoundError"
    by (simp add: get_market_price_def)
  with assms show False by (simp add: cache_inv_def)
qed

lemma keeps_new_file:
  assumes "cache_inv s0" and "reports_dir s0 path = None" and "\<not> absent_xls data"
      and "reports_dir s = (reports_dir s0)(path \<mapsto> data)" and "records s = records s0"
  shows "keeps s0 s"
proof -
  have ok: "reports_ok (reports_dir s)"
    using assms(1,3,4) by (simp add: cache_inv_def reports_ok_def)
  have "get_market_price s (r_path r) target_row target_col = Inr (r_price r)
        \<and> truthy (r_price r)"
    if "r \<in> set (records s)" for r
  proof -
    from that assms(5) have m: "r \<in> set (records s0)" by simp
    from record_path_exists[OF assms(1) m] assms(2) have "r_path r \<noteq> path" by auto
    then have "get_market_price s (r_path r) target_row target_col
        = get_market_price s0 (r_path r) target_row target_col"
      using assms(4) by (simp add: get_market_price_def)
    with assms(1) m show ?thesis by (simp add: cache_inv_def)
  qed
  with ok have "cache_inv s" by (simp add: cache_inv_def)
  moreover have "reports_dir s p = Some x" if "reports_dir s0 p = Some x" for p x
    using that assms(2,4) by auto
  ultimately show ?thesis by (simp add: keeps_def)
qed

lemma keeps_add_record:
  assumes "keeps s0 s"
      and "get_market_price s path target_row target_col = Inr price" and "truthy price"
  shows "keeps s0 (s\<lparr>records := records s @ [\<lparr>r_date = d, r_price = price, r_path = path\<rparr>]\<rparr>)"
proof -
  let ?s' = "s\<lparr>records := records s @ [\<lparr>r_date = d, r_price = price, r_path = path\<rparr>]\<rparr>"
  have g: "get_market_price ?s' = get_market_price s"
    by (rule get_market_price_same_files) simp
  from assms(1) have "cache_inv s" by (simp add: keeps_def)
  with assms(2,3) g have "cache_inv ?s'" by (auto simp: cache_inv_def)
  with assms(1) show ?thesis by (simp add: keeps_def)
qed

lemma extract_and_record_existing:
  assumes "keeps s0 s" and "reports_dir s path = Some x"
      and "extract_and_record e date path s = (r, s')"
  shows "keeps s0 s'"
proof (cases x)
  case (Unreadable exc)
  with assms(2,3) have "s' = s"
    by (simp add: extract_and_record_def get_market_price_def)
  with assms(1) show ?thesis by simp
next
  case (Workbook sh)
  from assms(1,2) have "\<not> absent_xls x" by (simp add: keeps_def cache_inv_def reports_ok_def)
  with Workbook have t: "truthy (get_market_price_sheet sh target_row target_col)"
    by (simp add: absent_xls_def)
  from assms(2) Workbook have p: "get_market_price s path target_row target_col
      = Inr (get_market_price_sheet sh target_row target_col)"
    by (simp add: get_market_price_def)
  show ?thesis
  proof (cases "strptime e date")
    case None
    with assms(3) p t have "s' = s" by (simp add: extract_and_record_def)
    with assms(1) show ?thesis by simp
  next
    case (Some d)
    with assms(3) p t have "s' = s\<lparr>records := records s @
        [\<lparr>r_date = d, r_price = get_market_price_sheet sh target_row target_col,
          r_path = path\<rparr>]\<rparr>"
      by (simp add: extract_and_record_def)
    with keeps_add_record[OF assms(1) p t] show ?thesis by simp
  qed
qed

lemma extract_and_record_new:
  assumes "cache_inv s0" and "reports_dir s0 path = None"
      and "reports_dir s = (reports_dir s0)(path \<mapsto> data)" and "records s = records s0"
      and "extract_and_record e date path s = (r, s')"
  shows "keeps s0 s'"
proof (cases "absent_xls data")
  case False
  from keeps_new_file[OF assms(1,2) False assms(3,4)] have k: "keeps s0 s" .
  from assms(3) have "reports_dir s path = Some data" by simp
  from extract_and_record_existing[OF k this assms(5)] show ?thesis .
next
  case True
  then obtain sh where d: "data = Workbook sh"
    and f: "\<not> truthy (get_market_price_sheet sh target_row target_col)"
    by (cases data) (simp_all add: absent_xls_def)
  from assms(3) d have "get_market_price s path target_row target_col
      = Inr (get_market_price_sheet sh target_row target_col)"
    by (simp add: get_market_price_def)
  with assms(5) f have s': "s' = s\<lparr>reports_dir := (reports_dir s)(path := None)\<rparr>"
    by (simp add: extract_and_record_def)
  have "reports_dir s' = reports_dir s0"
    using assms(2,3) unfolding s' by (auto simp: fun_eq_iff)
  moreover have "records s' = records s0" using assms(4) unfolding s' by simp
  ultimately show ?thesis using keeps_same_files[OF keeps_refl[OF assms(1)]] by blast
qed

lemma analyze_element_keeps:
  assumes "cache_inv s" and "analyze_element e el s = (r, s')"
  shows "keeps s s'"
proof (cases "find_a el")
  case None
  with assms show ?thesis by (simp add: analyze_element_def keeps_refl)
next
  case (Some tag)
  note tag = this
  show ?thesis
  proof (cases "tag_contains tag text_to_search")
    case False
    with assms tag show ?thesis by (simp add: analyze_element_def keeps_refl)
  next
    case True
    note marked = this
    show ?thesis
    proof (cases "find_span_text el")
      case None
      with assms tag marked show ?thesis by (simp add: analyze_element_def keeps_refl)
    next
      case (Some date)
      note date = this
      let ?path = "report_path date"
      obtain r1 s1 where en: "ensure_report e tag ?path s = (r1, s1)"
        by (cases "ensure_report e tag ?path s")
      show ?thesis
      proof (cases "reports_dir s ?path")
        case (Some x)
        with en have "r1 = Inr ()" "s1 = s" by (simp_all add: ensure_report_def)
        with assms(2) tag marked date en
        have "extract_and_record e date ?path s = (r, s')"
          by (simp add: analyze_element_def)
        from extract_and_record_existing[OF keeps_refl[OF assms(1)] Some this] show ?thesis .
      next
        case None
        with en have d: "download_xls e (schema @ domain @ href tag) ?path s = (r1, s1)"
          by (simp add: ensure_report_def)
        from download_xls_effect[OF d] have rec: "records s1 = records s"
          and alt: "(\<exists>x. r1 = Inl x) \<and> reports_dir s1 = reports_dir s
             \<or> r1 = Inr () \<and> (\<exists>data. reports_dir s1 = (reports_dir s)(?path \<mapsto> data))"
          by simp_all
        from alt show ?thesis
        proof
          assume a: "(\<exists>x. r1 = Inl x) \<and> reports_dir s1 = reports_dir s"
          then obtain x where "r1 = Inl x" by blast
          with assms(2) tag marked date en
          have "s' = s1" by (simp add: analyze_element_def)
          with a rec keeps_same_files[OF keeps_refl[OF assms(1)]] show ?thesis by blast
        next
          assume a: "r1 = Inr () \<and> (\<exists>data. reports_dir s1 = (reports_dir s)(?path \<mapsto> data))"
          then obtain data where f: "reports_dir s1 = (reports_dir s)(?path \<mapsto> data)" by blast
          from a assms(2) tag marked date en
          have "extract_and_record e date ?path s1 = (r, s')"
            by (simp add: analyze_element_def)
          from extract_and_record_new[OF assms(1) None f rec this] show ?thesis .
        qed
      qed
    qed
  qed
qed

lemma analyze_elements_keeps:
  "keeps s0 s \<Longrightarrow> analyze_elements e els s = (r, s') \<Longrightarrow> keeps s0 s'"
proof (induction els arbitrary: s)
  case Nil
  then show ?case by simp
next
  case (Cons el els)
  obtain r1 s1 where a: "analyze_element e el s = (r1, s1)" by (cases "analyze_element e el s")
  from Cons.prems(1) have inv: "cache_inv s" by (simp add: keeps_def)
  from keeps_trans[OF Cons.prems(1) analyze_element_keeps[OF inv a]] have k: "keeps s0 s1" .
  show ?case
  proof (cases r1)
    case (Inl x)
    with Cons.prems(2) a have "s' = s1" by simp
    with k show ?thesis by simp
  next
    case (Inr u)
    with Cons.prems(2) a have "analyze_elements e els s1 = (r, s')" by simp
    from Cons.IH[OF k this] show ?thesis .
  qed
qed

lemma task_keeps:
  assumes "keeps s0 s" and "download_and_analyze_report e u param count s = (r, s')"
  shows "keeps s0 s'"
proof -
  obtain r1 s1 where g: "get_html_page e u param count s = (r1, s1)"
    by (cases "get_html_page e u param count s")
  from get_html_page_files[OF g] keeps_same_files[OF assms(1)] have k: "keeps s0 s1" by blast
  show ?thesis
  proof (cases r1)
    case (Inl x)
    with assms(2) g have "s' = s1" by (simp add: download_and_analyze_report_def)
    with k show ?thesis by simp
  next
    case (Inr data)
    with assms(2) g have "analyze_elements e (findAll e data) s1 = (r, s')"
      by (simp add: download_and_analyze_report_def)
    from analyze_elements_keeps[OF k this] show ?thesis .
  qed
qed

lemma gather_keeps:
  "keeps s0 s \<Longrightarrow> gather e ts s = (r, ts', s') \<Longrightarrow> keeps s0 s'"
proof (induction ts arbitrary: s ts')
  case Nil
  then show ?case by simp
next
  case (Cons t ts)
  show ?case
  proof (cases "task_done t")
    case True
    with Cons.prems(2) obtain ts'' where "gather e ts s = (r, ts'', s')"
      by (auto split: prod.splits)
    from Cons.IH[OF Cons.prems(1) this] show ?thesis .
  next
    case False
    obtain r1 s1 where d: "download_and_analyze_report e url (task_param t) (task_count t) s = (r1, s1)"
      by (cases "download_and_analyze_report e url (task_param t) (task_count t) s")
    from keeps_emit[OF task_keeps[OF Cons.prems(1) d]]
    have k: "keeps s0 (emit [TaskDone (task_count t)] s1)" .
    show ?thesis
    proof (cases r1)
      case (Inl x)
      with Cons.prems(2) False d have "s' = emit [TaskDone (task_count t)] s1" by simp
      with k show ?thesis by simp
    next
      case (Inr u)
      with Cons.prems(2) False d obtain ts'' where
        g: "gather e ts (emit [TaskDone (task_count t)] s1) = (r, ts'', s')"
        by (auto split: prod.splits)
      from Cons.IH[OF k g] show ?thesis .
    qed
  qed
qed

lemma iteration_keeps:
  assumes "keeps s0 s"
  shows "iteration e count page_num tasks s = Continue count' page_num' tasks' s' \<Longrightarrow> keeps s0 s'"
    and "iteration e count page_num tasks s = Break s' \<Longrightarrow> keeps s0 s'"
    and "iteration e count page_num tasks s = Raise x s' \<Longrightarrow> keeps s0 s'"
proof -
  let ?tasks = "tasks @ [Task (if count + 1 > 1 then ascii ''page-'' @ str_nat
      (if count + 1 > 1 then page_num + 1 else page_num) else []) (count + 1) False]"
  obtain r ts s2 where g: "gather e ?tasks (emit [CreateTask (count + 1)] s) = (r, ts, s2)"
    by (cases "gather e ?tasks (emit [CreateTask (count + 1)] s)")
  have k: "keeps s0 s2"
    using gather_keeps[OF keeps_emit[OF assms] g] .
  have it: "iteration e count page_num tasks s =
     (case r of None \<Rightarrow> Continue (count + 1) (if count + 1 > 1 then page_num + 1 else page_num) ts s2
      | Some x \<Rightarrow> if is_ValueError x then Break s2 else Raise x s2)"
    unfolding iteration_def Let_def g by (cases r) simp_all
  show "iteration e count page_num tasks s = Continue count' page_num' tasks' s' \<Longrightarrow> keeps s0 s'"
    unfolding it using k by (cases r) (auto split: if_splits)
  show "iteration e count page_num tasks s = Break s' \<Longrightarrow> keeps s0 s'"
    unfolding it using k by (cases r) (auto split: if_splits)
  show "iteration e count page_num tasks s = Raise x s' \<Longrightarrow> keeps s0 s'"
    unfolding it using k by (cases r) (auto split: if_splits)
qed

lemma crawl_keeps:
  assumes "crawl e count page_num tasks s = Some y"
  shows "keeps s0 s \<longrightarrow>
       keeps s0 (snd y) \<and> (\<forall>recs. fst y = Inr recs \<longrightarrow> recs = records (snd y))"
proof (rule crawl.raw_induct[where P = "\<lambda>e count page_num tasks s y.
    keeps s0 s \<longrightarrow>
       keeps s0 (snd y) \<and> (\<forall>recs. fst y = Inr recs \<longrightarrow> recs = records (snd y))"
    and y = y, OF _ assms], goal_cases)
  case (1 crawl' e count page_num tasks s y)
  show ?case
  proof (intro impI)
    assume k: "keeps s0 s"
    show "keeps s0 (snd y) \<and> (\<forall>recs. fst y = Inr recs \<longrightarrow> recs = records (snd y))"
    proof (cases "iteration e count page_num tasks s")
      case (Continue count' page_num' tasks' s')
      with 1(2) have c: "crawl' e count' page_num' tasks' s' = Some y" by simp
      from iteration_keeps(1)[OF k Continue] 1(1)[OF c] show ?thesis by blast
    next
      case (Break s')
      with 1(2) have "y = (Inr (records s'), s')" by simp
      with iteration_keeps(2)[OF k Break] show ?thesis by simp
    next
      case (Raise x' s')
      with 1(2) have y: "y = (Inl x', s')" by simp
      from iteration_keeps(3)[OF k Raise] y show ?thesis by simp
    qed
  qed
qed

text \<open>
  C2 (amended). Let no file of the reports folder have an absent extraction when the run
  starts. When the run ends, in whatever way, no file whose extraction is absent remains
  on disk: every file of the folder either has a successful extraction or is one that
  the workbook reader cannot open. The files that were there are still there unchanged,
  the file of every record exists and yields the record's truthy price, and the list
  returned is the list of records.
\<close>

theorem reports_folder_integrity:
  assumes "reports_ok reports"
      and "get_records e cache reports = Some (r, sf)"
  shows "(\<forall>p x. reports_dir sf p = Some x \<longrightarrow>
            \<not> absent_xls x \<and> (good_xls x \<or> (\<exists>exc. x = Unreadable exc)))
         \<and> (\<forall>p x. reports p = Some x \<longrightarrow> reports_dir sf p = Some x)
         \<and> (\<forall>rec\<in>set (records sf).
               get_market_price sf (r_path rec) target_row target_col = Inr (r_price rec)
               \<and> truthy (r_price rec))
         \<and> (\<forall>recs. r = Inr recs \<longrightarrow> recs = records sf)"
proof -
  let ?s = "init_state cache reports"
  have "cache_inv ?s" using assms(1) by (simp add: cache_inv_def init_state_def)
  then have k: "keeps ?s ?s" by (rule keeps_refl)
  from crawl_keeps[OF assms(2)[unfolded get_records_def], of ?s] k
  have k': "keeps ?s sf" and rr: "\<forall>recs. r = Inr recs \<longrightarrow> recs = records sf" by simp_all
  then have inv: "cache_inv sf" by (simp add: keeps_def)
  have f: "\<not> absent_xls x \<and> (good_xls x \<or> (\<exists>exc. x = Unreadable exc))"
    if "reports_dir sf p = Some x" for p x
  proof -
    from inv that have "\<not> absent_xls x" by (simp add: cache_inv_def reports_ok_def)
    then show ?thesis by (cases x) (simp_all add: absent_xls_def good_xls_def)
  qed
  from k' inv rr f show ?thesis
    by (simp add: keeps_def cache_inv_def init_state_def)
qed

text \<open>The three-page scenario leaves two good files behind.\<close>

theorem reports_folder_integrity_witness:
  "\<exists>sf. get_records three_pages Map.empty Map.empty =
          Some (Inr [\<lparr>r_date = DateTime 2023 2 3, r_price = PFloat 42.5,
                       r_path = report_path (ascii ''03.02.2023'')\<rparr>,
                     \<lparr>r_date = DateTime 2023 2 2, r_price = PFloat 40,
                       r_path = report_path (ascii ''02.02.2023'')\<rparr>], sf)
        \<and> reports_ok (reports_dir sf)
        \<and> get_market_price sf (report_path (ascii ''03.02.2023'')) target_row target_col
            = Inr (PFloat 42.5)"
proof -
  let ?recs = "[\<lparr>r_date = DateTime 2023 2 3, r_price = PFloat 42.5,
                  r_path = report_path (ascii ''03.02.2023'')\<rparr>,
                \<lparr>r_date = DateTime 2023 2 2, r_price = PFloat 40,
                  r_path = report_path (ascii ''02.02.2023'')\<rparr>]"
  have "map_option fst (get_records three_pages Map.empty Map.empty) = Some (Inr ?recs)"
    by (simp add: three_pages_def run_defs)
  then obtain sf where g: "get_records three_pages Map.empty Map.empty = Some (Inr ?recs, sf)"
    by auto
  have ok: "reports_ok Map.empty" by (simp add: reports_ok_def)
  from reports_folder_integrity[OF ok g]
  have a: "\<forall>p x. reports_dir sf p = Some x \<longrightarrow> \<not> absent_xls x" and "?recs = records sf"
    and "\<forall>rec\<in>set (records sf).
           get_market_price sf (r_path rec) target_row target_col = Inr (r_price rec)"
    by simp_all
  then have "get_market_price sf (report_path (ascii ''03.02.2023'')) target_row target_col
            = Inr (PFloat 42.5)"
    by (metis list.set_intros(1) report_record.select_convs(2,3))
  moreover from a have "reports_ok (reports_dir sf)" by (simp add: reports_ok_def)
  ultimately show ?thesis using g by blast
qed

text \<open>
  The invariant as stated fails: a download answered with status 200 and a body that is
  no workbook is written to disk, the workbook reader raises, and the file is still there
  when the run ends, although its extraction did not succeed. When the reader's exception
  is a \<open>UnicodeDecodeError\<close> the loop even takes it for the end of the listing and
  \<open>get_records\<close> returns normally.
\<close>

theorem unreadable_download_stays_on_disk:
  "map_option (\<lambda>x. (fst x, reports_dir (snd x) (report_path (ascii ''03.02.2023''))))
     (get_records garbage_site Map.empty Map.empty)
     = Some (Inl XLRDError, Some (Unreadable XLRDError))
   \<and> map_option (\<lambda>x. (fst x, reports_dir (snd x) (report_path (ascii ''03.02.2023''))))
       (get_records undecodable_site Map.empty Map.empty)
     = Some (Inr [], Some (Unreadable UnicodeDecodeError))"
  by (simp add: garbage_site_def undecodable_site_def run_defs)

section \<open>Runs that do not end\<close>

lemma analyze_elements_none_marked:
  "\<forall>el\<in>set els. find_a el \<noteq> None \<and> \<not> is_bulletin el \<Longrightarrow>
     analyze_elements e els s = (Inr (), s)"
  by (induction els) (simp_all add: analyze_element_skip)

text \<open>
  A page without a block that passes the test is no signal to stop: its task adds no
  record and finishes, and the loop goes round again for the next page.
\<close>

theorem page_without_bulletins_continues:
  assumes "loop_head e cache reports count page_num tasks s"
      and "get_html_page e url (page_param count) (Suc count)
             (emit [CreateTask (Suc count)] s) = (Inr data, s1)"
      and "\<forall>el\<in>set (findAll e data). find_a el \<noteq> None \<and> \<not> is_bulletin el"
  shows "iteration e count page_num tasks s =
           Continue (Suc count) count (tasks @ [Task (page_param count) (Suc count) True])
             (emit [TaskDone (Suc count)] s1)
         \<and> records s1 = records s"
proof -
  have "download_and_analyze_report e url (page_param count) (Suc count)
          (emit [CreateTask (Suc count)] s) = (Inr (), s1)"
    using assms(2) analyze_elements_none_marked[OF assms(3)]
    by (simp add: download_and_analyze_report_def)
  then have "iteration e count page_num tasks s =
           Continue (Suc count) count (tasks @ [Task (page_param count) (Suc count) True])
             (emit [TaskDone (Suc count)] s1)"
    unfolding iteration_head[OF assms(1)] by simp
  moreover have "records s1 = records s"
    using get_html_page_files[OF assms(2)] by (simp add: emit_def)
  ultimately show ?thesis by simp
qed

theorem page_without_bulletins_continues_witness:
  "iteration endless_site 0 0 [] (init_state Map.empty Map.empty) =
     Continue 1 0 [Task [] 1 True]
       (emit [TaskDone 1] (snd (get_html_page endless_site url [] 1
          (emit [CreateTask 1] (init_state Map.empty Map.empty)))))"
proof -
  have h: "loop_head endless_site Map.empty Map.empty 0 0 [] (init_state Map.empty Map.empty)"
    by (rule loop_start)
  have a: "get_html_page endless_site url (page_param 0) (Suc 0)
      (emit [CreateTask (Suc 0)] (init_state Map.empty Map.empty))
      = (Inr [], snd (get_html_page endless_site url (page_param 0) (Suc 0)
          (emit [CreateTask (Suc 0)] (init_state Map.empty Map.empty))))"
    by (rule pair_fst_snd)
       (simp add: endless_site_def get_html_page_def init_state_def emit_def page_param_def)
  have b: "\<forall>el\<in>set (findAll endless_site []). find_a el \<noteq> None \<and> \<not> is_bulletin el"
    by (simp add: endless_site_def)
  from page_without_bulletins_continues[OF h a b] show ?thesis
    by (simp add: page_param_def)
qed

lemma crawl_Some_needs_exit:
  assumes "crawl e count page_num tasks s = Some y"
  shows "loop_head e cache reports count page_num tasks s \<longrightarrow>
           (\<exists>c p t s'. loop_head e cache reports c p t s'
              \<and> fst (download_and_analyze_report e url (page_param c) (Suc c)
                       (emit [CreateTask (Suc c)] s')) \<noteq> Inr ())"
proof -
  have "e = e \<longrightarrow> loop_head e cache reports count page_num tasks s \<longrightarrow>
           (\<exists>c p t s'. loop_head e cache reports c p t s'
              \<and> fst (download_and_analyze_report e url (page_param c) (Suc c)
                       (emit [CreateTask (Suc c)] s')) \<noteq> Inr ())"
  proof (rule crawl.raw_induct[where P = "\<lambda>e' count page_num tasks s y.
      e' = e \<longrightarrow> loop_head e cache reports count page_num tasks s \<longrightarrow>
           (\<exists>c p t s'. loop_head e cache reports c p t s'
              \<and> fst (download_and_analyze_report e url (page_param c) (Suc c)
                       (emit [CreateTask (Suc c)] s')) \<noteq> Inr ())"
      and y = y, OF _ assms], goal_cases)
    case (1 crawl' e' count page_num tasks s y)
    show ?case
    proof (intro impI)
      assume e: "e' = e" and h: "loop_head e cache reports count page_num tasks s"
      let ?d = "download_and_analyze_report e url (page_param count) (Suc count)
                  (emit [CreateTask (Suc count)] s)"
      show "\<exists>c p t s'. loop_head e cache reports c p t s'
              \<and> fst (download_and_analyze_report e url (page_param c) (Suc c)
                       (emit [CreateTask (Suc c)] s')) \<noteq> Inr ()"
      proof (cases "fst ?d = Inr ()")
        case False
        with h show ?thesis by blast
      next
        case True
        let ?ts = "tasks @ [Task (page_param count) (Suc count) True]"
        let ?s' = "emit [TaskDone (Suc count)] (snd ?d)"
        from loop_head_step[OF h True]
        have h': "loop_head e cache reports (Suc count) count ?ts ?s'" .
        have "iteration e count page_num tasks s = Continue (Suc count) count ?ts ?s'"
          using True unfolding iteration_head[OF h] by (cases ?d) auto
        with 1(2) e have "crawl' e (Suc count) count ?ts ?s' = Some y" by simp
        from 1(1)[OF this] h' show ?thesis by simp
      qed
    qed
  qed
  then show ?thesis by simp
qed

text \<open>
  The loop has no exit of its own: a run in which no page task ever raises does not
  return.
\<close>

theorem crawl_without_exception_never_returns:
  assumes "\<forall>count page_num tasks s. loop_head e cache reports count page_num tasks s \<longrightarrow>
             fst (download_and_analyze_report e url (page_param count) (Suc count)
                    (emit [CreateTask (Suc count)] s)) = Inr ()"
  shows "get_records e cache reports = None"
proof (cases "get_records e cache reports")
  case None
  then show ?thesis .
next
  case (Some y)
  then have "crawl e 0 0 [] (init_state cache reports) = Some y"
    by (simp add: get_records_def)
  from crawl_Some_needs_exit[OF this, of cache reports] loop_start[of e cache reports] assms
  show ?thesis by blast
qed

lemma endless_task:
  "fst (download_and_analyze_report endless_site u p c s) = Inr ()"
  by (cases "cache_dir s c")
     (simp_all add: download_and_analyze_report_def get_html_page_def endless_site_def Let_def)

theorem crawl_without_exception_never_returns_witness:
  "get_records endless_site Map.empty Map.empty = None"
  by (rule crawl_without_exception_never_returns) (simp add: endless_task)

end
